theory Spec2Isabelle
  imports Complex_Main
begin

section \<open>Collision models (Environment/CollisionModels.py)\<close>

text \<open>
  A collision model resolves one round. It reads the players' choices and mutates the
  arrays \<open>rewards\<close>, \<open>pulls\<close> and \<open>collisions\<close> in place, calling back the players.
  The arrays and the sequence of callbacks form the state that is passed along; every
  Python exception is a value of the type \<open>error\<close>.

  Arm indices and player indices are natural numbers (the data model has no negative
  index). Rewards and distances are floating-point numbers in the source; they are only
  copied and compared there, and are modelled as reals.
\<close>

datatype error = IndexError | ValueError | ZeroDivisionError | OverflowError

text \<open>A callback received by a player: \<open>getReward(arm, reward)\<close> or \<open>handleCollision(arm)\<close>.\<close>

datatype callback = GetReward nat nat real | HandleCollision nat nat

record round_state =
  rewards :: "real list"
  pulls :: "int list list"
  collisions :: "int list"
  calls :: "callback list"

text \<open>
  The collaborators of a round: \<open>len_arms = len(arms)\<close>, \<open>len_players = len(players)\<close>,
  \<open>draw w arm i\<close> is the value that \<open>arms[arm].draw(t)\<close> returns when it is drawn for
  player \<open>i\<close> (every player draws at most once in a round), \<open>hasHandleCollision w j\<close> is
  \<open>hasattr(players[j], 'handleCollision')\<close>, \<open>random_choice w arm\<close> is the random
  number consumed by \<open>np.random.choice\<close> while resolving \<open>arm\<close>, and
  \<open>random_sample w k\<close> is the \<open>k\<close>-th value of \<open>np.random.random_sample\<close>.
\<close>

record world =
  len_arms :: nat
  len_players :: nat
  draw :: "nat \<Rightarrow> nat \<Rightarrow> real"
  hasHandleCollision :: "nat \<Rightarrow> bool"
  random_choice :: "nat \<Rightarrow> nat"
  random_sample :: "nat \<Rightarrow> real"

definition and_then :: "error + 'a \<Rightarrow> ('a \<Rightarrow> error + 'b) \<Rightarrow> error + 'b" where
  "and_then m f = (case m of Inl e \<Rightarrow> Inl e | Inr x \<Rightarrow> f x)"

text \<open>A Python \<open>for\<close> loop over a sequence: the first exception ends it.\<close>

fun for_each :: "('a \<Rightarrow> 's \<Rightarrow> error + 's) \<Rightarrow> 'a list \<Rightarrow> 's \<Rightarrow> error + 's" where
  "for_each f [] s = Inr s"
| "for_each f (x # xs) s = and_then (f x s) (for_each f xs)"

text \<open>\<open>np.sum(choices == arm)\<close>: the number of entries of \<open>choices\<close> equal to \<open>arm\<close>.\<close>

definition occupancy :: "nat list \<Rightarrow> nat \<Rightarrow> nat" where
  "occupancy choices arm = count_list choices arm"

text \<open>\<open>np.nonzero(choices == arm)[0]\<close>: the indices of these entries, in increasing order.\<close>

definition players_who_chose_it :: "nat list \<Rightarrow> nat \<Rightarrow> nat list" where
  "players_who_chose_it choices arm = filter (\<lambda>i. choices ! i = arm) [0..<length choices]"

text \<open>\<open>collisions[arm] += k\<close>\<close>

definition incr_collisions :: "nat \<Rightarrow> int \<Rightarrow> round_state \<Rightarrow> error + round_state" where
  "incr_collisions arm k s =
     (if arm < length (collisions s)
      then Inr (s\<lparr>collisions := (collisions s)[arm := collisions s ! arm + k]\<rparr>)
      else Inl IndexError)"

text \<open>
  The three statements that let player \<open>i\<close> pull \<open>arm\<close>, the same in every model:
  \<^verbatim>\<open>rewards[i] = arms[arm].draw(t)\<close>,
  \<^verbatim>\<open>players[i].getReward(arm, rewards[i])\<close>,
  \<^verbatim>\<open>pulls[i, arm] += 1\<close>.
\<close>

definition draw_and_reward :: "world \<Rightarrow> nat \<Rightarrow> nat \<Rightarrow> round_state \<Rightarrow> error + round_state" where
  "draw_and_reward w i arm s =
     (if arm < len_arms w \<and> i < length (rewards s) then
        let r = draw w arm i;
            s1 = s\<lparr>rewards := (rewards s)[i := r]\<rparr>
        in if i < len_players w then
             let s2 = s1\<lparr>calls := calls s1 @ [GetReward i arm (rewards s1 ! i)]\<rparr>
             in if i < length (pulls s2) \<and> arm < length (pulls s2 ! i)
                then Inr (s2\<lparr>pulls := (pulls s2)[i := (pulls s2 ! i)[arm := pulls s2 ! i ! arm + 1]]\<rparr>)
                else Inl IndexError
           else Inl IndexError
      else Inl IndexError)"

text \<open>
  The notification of a collision to player \<open>j\<close>, the same in every model:
  \<open>handleCollision(arm)\<close> if the player has it, otherwise \<open>getReward(arm, 0)\<close>.
\<close>

definition collision_notice :: "world \<Rightarrow> nat \<Rightarrow> nat \<Rightarrow> callback" where
  "collision_notice w j arm =
     (if hasHandleCollision w j then HandleCollision j arm else GetReward j arm 0)"

definition notify_collision :: "world \<Rightarrow> nat \<Rightarrow> nat \<Rightarrow> round_state \<Rightarrow> error + round_state" where
  "notify_collision w j arm s =
     (if j < len_players w
      then Inr (s\<lparr>calls := calls s @ [collision_notice w j arm]\<rparr>)
      else Inl IndexError)"

subsection \<open>onlyUniqUserGetsReward\<close>

definition nbCollisions :: "nat \<Rightarrow> nat list \<Rightarrow> int list" where
  "nbCollisions nb_arms choices = map (\<lambda>arm. int (occupancy choices arm) - 1) [0..<nb_arms]"

definition onlyUniq_player :: "world \<Rightarrow> nat list \<Rightarrow> nat \<Rightarrow> round_state \<Rightarrow> error + round_state" where
  "onlyUniq_player w choices i s =
     (if i < length choices then
        let c = choices ! i in
        if c < length (nbCollisions (len_arms w) choices) then
          if nbCollisions (len_arms w) choices ! c < 1
          then draw_and_reward w i c s
          else and_then (incr_collisions c 1 s) (notify_collision w i c)
        else Inl IndexError
      else Inl IndexError)"

definition onlyUniqUserGetsReward :: "world \<Rightarrow> nat list \<Rightarrow> round_state \<Rightarrow> error + round_state" where
  "onlyUniqUserGetsReward w choices s = for_each (onlyUniq_player w choices) [0..<len_players w] s"

subsection \<open>noCollision\<close>

definition noCollision_player :: "world \<Rightarrow> nat list \<Rightarrow> nat \<Rightarrow> round_state \<Rightarrow> error + round_state" where
  "noCollision_player w choices i s =
     (if i < length choices then draw_and_reward w i (choices ! i) s else Inl IndexError)"

definition noCollision :: "world \<Rightarrow> nat list \<Rightarrow> round_state \<Rightarrow> error + round_state" where
  "noCollision w choices s = for_each (noCollision_player w choices) [0..<len_players w] s"

subsection \<open>rewardIsSharedUniformly\<close>

text \<open>
  The loop over the occupants of an arm once player \<open>i\<close> has been selected, the same in
  \<open>rewardIsSharedUniformly\<close> and \<open>closerUserGetsReward\<close>.
\<close>

definition notify_others :: "world \<Rightarrow> nat \<Rightarrow> nat \<Rightarrow> nat list \<Rightarrow> round_state \<Rightarrow> error + round_state" where
  "notify_others w arm i ps s =
     for_each (\<lambda>j s'. if i \<noteq> j then notify_collision w j arm s' else Inr s') ps s"

text \<open>
  The statements that follow the selection of player \<open>i\<close> among the occupants \<open>ps\<close> of
  an arm, the same in \<open>rewardIsSharedUniformly\<close> and \<open>closerUserGetsReward\<close>: player \<open>i\<close>
  pulls the arm, then the loop notifies the others.
\<close>

definition resolve_occupied ::
  "world \<Rightarrow> nat \<Rightarrow> nat \<Rightarrow> nat list \<Rightarrow> round_state \<Rightarrow> error + round_state" where
  "resolve_occupied w arm i ps s =
     and_then (draw_and_reward w i arm s) (notify_others w arm i ps)"

text \<open>\<open>np.random.choice(a)\<close> on a one-dimensional array: one of its elements.\<close>

definition np_random_choice :: "world \<Rightarrow> nat \<Rightarrow> nat list \<Rightarrow> nat" where
  "np_random_choice w arm a = a ! (random_choice w arm mod length a)"

definition shared_winner :: "world \<Rightarrow> nat list \<Rightarrow> nat \<Rightarrow> nat" where
  "shared_winner w choices arm = np_random_choice w arm (players_who_chose_it choices arm)"

definition rewardIsSharedUniformly_arm ::
  "world \<Rightarrow> nat list \<Rightarrow> nat \<Rightarrow> round_state \<Rightarrow> error + round_state" where
  "rewardIsSharedUniformly_arm w choices arm s =
     (let ps = players_who_chose_it choices arm in
      if length ps > 0 then
        and_then (incr_collisions arm (int (length ps) - 1) s) (\<lambda>s1.
          let i = shared_winner w choices arm in
          resolve_occupied w arm i ps s1)
      else Inr s)"

definition rewardIsSharedUniformly :: "world \<Rightarrow> nat list \<Rightarrow> round_state \<Rightarrow> error + round_state" where
  "rewardIsSharedUniformly w choices s =
     for_each (rewardIsSharedUniformly_arm w choices) [0..<len_arms w] s"

subsection \<open>closerUserGetsReward\<close>

text \<open>
  The optional argument \<open>distances\<close>: absent, one of the two keywords \<open>'uniform'\<close> and
  \<open>'random'\<close>, or a numpy array of distances (which the two tests against the keywords
  leave as it is).
\<close>

datatype distances_arg = Dist_None | Dist_uniform | Dist_random | Dist_array "real list"

text \<open>\<open>np.linspace(0, 1, n + 1, endpoint=False)[1:]\<close>\<close>

definition uniform_distances :: "nat \<Rightarrow> real list" where
  "uniform_distances n = map (\<lambda>k. real k / real (n + 1)) [1..<n + 1]"

definition random_distances :: "world \<Rightarrow> nat \<Rightarrow> real list" where
  "random_distances w n = map (random_sample w) [0..<n]"

fun resolve_distances :: "world \<Rightarrow> distances_arg \<Rightarrow> real list" where
  "resolve_distances w Dist_None = uniform_distances (len_players w)"
| "resolve_distances w Dist_uniform = uniform_distances (len_players w)"
| "resolve_distances w Dist_random = random_distances w (len_players w)"
| "resolve_distances w (Dist_array d) = d"

text \<open>
  \<open>np.min\<close> of a non-empty array, and \<open>np.argmin\<close>: the first index of the minimum.
  The source takes them of the distances of the occupants of an occupied arm, so the
  equation for the empty list is never used.
\<close>

fun np_min :: "real list \<Rightarrow> real" where
  "np_min [] = 0"
| "np_min [x] = x"
| "np_min (x # y # ys) = min x (np_min (y # ys))"

definition np_argmin :: "real list \<Rightarrow> nat" where
  "np_argmin xs = length (takeWhile (\<lambda>x. x \<noteq> np_min xs) xs)"

text \<open>
  The selection of the player that pulls the arm. With one occupant at the minimal
  distance it is \<open>players_who_chose_it[np.argmin(distancesChosen)]\<close>. Otherwise the source
  evaluates \<open>np.random.choice(np.argwhere(distancesChosen == smaller_distance))\<close>:
  \<open>np.argwhere\<close> returns a two-dimensional array (one row per index), and
  \<open>np.random.choice\<close> raises \<open>ValueError\<close> on an array that is not one-dimensional.
\<close>

definition closer_winner :: "real list \<Rightarrow> nat list \<Rightarrow> error + nat" where
  "closer_winner distances ps =
     (if list_all (\<lambda>p. p < length distances) ps then
        let distancesChosen = map (\<lambda>p. distances ! p) ps;
            smaller_distance = np_min distancesChosen
        in if count_list distancesChosen smaller_distance = 1
           then Inr (ps ! np_argmin distancesChosen)
           else Inl ValueError
      else Inl IndexError)"

definition closerUserGetsReward_arm ::
  "world \<Rightarrow> real list \<Rightarrow> nat list \<Rightarrow> nat \<Rightarrow> round_state \<Rightarrow> error + round_state" where
  "closerUserGetsReward_arm w distances choices arm s =
     (let ps = players_who_chose_it choices arm in
      if length ps > 0 then
        and_then (incr_collisions arm (int (length ps) - 1) s) (\<lambda>s1.
          and_then (closer_winner distances ps) (\<lambda>i.
            resolve_occupied w arm i ps s1))
      else Inr s)"

definition closerUserGetsReward ::
  "world \<Rightarrow> nat list \<Rightarrow> distances_arg \<Rightarrow> round_state \<Rightarrow> error + round_state" where
  "closerUserGetsReward w choices distances s =
     for_each (closerUserGetsReward_arm w (resolve_distances w distances) choices) [0..<len_arms w] s"

subsection \<open>Well-formed rounds\<close>

text \<open>
  The round state of the data model: one choice, one reward and one row of \<open>pulls\<close> per
  player, every choice an arm index, one column of \<open>pulls\<close> and one entry of
  \<open>collisions\<close> per arm.
\<close>

definition well_formed :: "world \<Rightarrow> nat list \<Rightarrow> round_state \<Rightarrow> bool" where
  "well_formed w choices s \<longleftrightarrow>
     length choices = len_players w \<and> list_all (\<lambda>c. c < len_arms w) choices \<and>
     length (rewards s) = len_players w \<and> length (pulls s) = len_players w \<and>
     list_all (\<lambda>row. length row = len_arms w) (pulls s) \<and>
     length (collisions s) = len_arms w"

text \<open>The callbacks made during a round that starts in \<open>s\<close> and ends in \<open>s'\<close>.\<close>

definition new_calls :: "round_state \<Rightarrow> round_state \<Rightarrow> callback list" where
  "new_calls s s' = drop (length (calls s)) (calls s')"

text \<open>A row of \<open>pulls\<close> after one more pull of \<open>arm\<close>.\<close>

definition one_more_pull :: "int list \<Rightarrow> nat \<Rightarrow> int list" where
  "one_more_pull row arm = row[arm := row ! arm + 1]"

text \<open>The number of players on \<open>arm\<close> beyond the first, \<open>max(occupancy(arm) - 1, 0)\<close>.\<close>

definition excess_occupants :: "nat list \<Rightarrow> nat \<Rightarrow> int" where
  "excess_occupants choices arm = max (int (occupancy choices arm) - 1) 0"

text \<open>
  The state after an occupied arm has been resolved in favour of player \<open>i\<close>: the excess
  occupants are counted, player \<open>i\<close> is rewarded and pulls, the others are notified.
\<close>

definition arm_outcome :: "world \<Rightarrow> nat list \<Rightarrow> nat \<Rightarrow> nat \<Rightarrow> round_state \<Rightarrow> round_state" where
  "arm_outcome w choices arm i s =
     s\<lparr>collisions := (collisions s)[arm := collisions s ! arm + excess_occupants choices arm],
       rewards := (rewards s)[i := draw w arm i],
       calls := calls s @ GetReward i arm (draw w arm i)
                  # map (\<lambda>j. collision_notice w j arm)
                      (filter (\<lambda>j. i \<noteq> j) (players_who_chose_it choices arm)),
       pulls := (pulls s)[i := one_more_pull (pulls s ! i) arm]\<rparr>"

text \<open>
  The body of the loop over the arms that \<open>rewardIsSharedUniformly\<close> and
  \<open>closerUserGetsReward\<close> have in common, with the selection of the player as a
  parameter \<open>win\<close>. The two models above are instances of it (lemmas
  \<open>rewardIsSharedUniformly_arm_step\<close> and \<open>closerUserGetsReward_arm_step\<close>).
\<close>

definition arm_step ::
  "world \<Rightarrow> nat list \<Rightarrow> (nat \<Rightarrow> error + nat) \<Rightarrow> nat \<Rightarrow> round_state \<Rightarrow> error + round_state" where
  "arm_step w choices win arm s =
     (let ps = players_who_chose_it choices arm in
      if length ps > 0 then
        and_then (incr_collisions arm (int (length ps) - 1) s) (\<lambda>s1.
          and_then (win arm) (\<lambda>i. resolve_occupied w arm i ps s1))
      else Inr s)"

text \<open>
  A round used to instantiate the statements below: three players, two arms, players 0
  and 1 on arm 0 and player 2 alone on arm 1. Arm 0 pays 5 and arm 1 pays 7. Only
  player 1 has \<open>handleCollision\<close>.
\<close>

definition example_world :: world where
  "example_world = \<lparr>len_arms = 2, len_players = 3,
     draw = (\<lambda>arm i. if arm = 0 then 5 else 7),
     hasHandleCollision = (\<lambda>j. j = 1),
     random_choice = (\<lambda>arm. 2),
     random_sample = (\<lambda>k. 1 / 2)\<rparr>"

definition example_choices :: "nat list" where
  "example_choices = [0, 0, 1]"

definition example_state :: round_state where
  "example_state = \<lparr>rewards = [0, 0, 0], pulls = [[0, 0], [0, 0], [0, 0]],
     collisions = [0, 0], calls = []\<rparr>"

section \<open>Change-point detectors (notebooks/Experiments_of_statistical_tests_for_piecewise_stationary_bandit.py)\<close>

subsection \<open>Numbers\<close>

text \<open>
  The detectors compute with floating-point numbers. Their arithmetic is idealised as
  exact real arithmetic, extended with the special values that the source produces and
  tests for: the infinities (\<open>np.log(0)\<close>) and NaN (\<open>np.mean\<close> of an empty slice).
  Rounding, overflow, underflow and the sign of zero are not modelled.
\<close>

datatype fl = Fin real | PInf | MInf | NaN

fun fl_neg :: "fl \<Rightarrow> fl" where
  "fl_neg (Fin x) = Fin (- x)"
| "fl_neg PInf = MInf"
| "fl_neg MInf = PInf"
| "fl_neg NaN = NaN"

fun fl_add :: "fl \<Rightarrow> fl \<Rightarrow> fl" where
  "fl_add NaN _ = NaN"
| "fl_add _ NaN = NaN"
| "fl_add (Fin x) (Fin y) = Fin (x + y)"
| "fl_add PInf MInf = NaN"
| "fl_add MInf PInf = NaN"
| "fl_add PInf _ = PInf"
| "fl_add _ PInf = PInf"
| "fl_add MInf _ = MInf"
| "fl_add _ MInf = MInf"

definition fl_sub :: "fl \<Rightarrow> fl \<Rightarrow> fl" where
  "fl_sub a b = fl_add a (fl_neg b)"

text \<open>The sign of a product or quotient with an infinite operand.\<close>

definition signed_inf :: "bool \<Rightarrow> fl" where
  "signed_inf positive = (if positive then PInf else MInf)"

fun fl_mult :: "fl \<Rightarrow> fl \<Rightarrow> fl" where
  "fl_mult NaN _ = NaN"
| "fl_mult _ NaN = NaN"
| "fl_mult (Fin x) (Fin y) = Fin (x * y)"
| "fl_mult (Fin x) PInf = (if x = 0 then NaN else signed_inf (0 < x))"
| "fl_mult (Fin x) MInf = (if x = 0 then NaN else signed_inf (x < 0))"
| "fl_mult PInf (Fin y) = (if y = 0 then NaN else signed_inf (0 < y))"
| "fl_mult MInf (Fin y) = (if y = 0 then NaN else signed_inf (y < 0))"
| "fl_mult PInf PInf = PInf"
| "fl_mult MInf MInf = PInf"
| "fl_mult PInf MInf = MInf"
| "fl_mult MInf PInf = MInf"

text \<open>Division of numpy floats: a division by zero gives an infinity or NaN, no exception.\<close>

fun fl_div :: "fl \<Rightarrow> fl \<Rightarrow> fl" where
  "fl_div NaN _ = NaN"
| "fl_div _ NaN = NaN"
| "fl_div (Fin x) (Fin y) =
     (if y \<noteq> 0 then Fin (x / y) else if x = 0 then NaN else signed_inf (0 < x))"
| "fl_div (Fin x) PInf = Fin 0"
| "fl_div (Fin x) MInf = Fin 0"
| "fl_div PInf (Fin y) = signed_inf (0 \<le> y)"
| "fl_div MInf (Fin y) = signed_inf (y < 0)"
| "fl_div PInf PInf = NaN"
| "fl_div PInf MInf = NaN"
| "fl_div MInf PInf = NaN"
| "fl_div MInf MInf = NaN"

text \<open>Comparisons: every comparison with NaN is false.\<close>

fun fl_less :: "fl \<Rightarrow> fl \<Rightarrow> bool" where
  "fl_less (Fin x) (Fin y) = (x < y)"
| "fl_less (Fin x) PInf = True"
| "fl_less MInf (Fin y) = True"
| "fl_less MInf PInf = True"
| "fl_less _ _ = False"

definition fl_eq :: "fl \<Rightarrow> fl \<Rightarrow> bool" where
  "fl_eq a b = (a \<noteq> NaN \<and> a = b)"

definition fl_ge :: "fl \<Rightarrow> fl \<Rightarrow> bool" where
  "fl_ge a b = (fl_less b a \<or> fl_eq a b)"

definition fl_isinf :: "fl \<Rightarrow> bool" where
  "fl_isinf a = (a = PInf \<or> a = MInf)"

text \<open>
  Python's built-in \<open>max(a, b)\<close> and \<open>min(a, b)\<close> keep the first argument unless the
  second is strictly greater (smaller): \<open>max(0, nan)\<close> is \<open>0\<close>.
\<close>

definition py_max :: "fl \<Rightarrow> fl \<Rightarrow> fl" where
  "py_max a b = (if fl_less a b then b else a)"

definition py_min :: "fl \<Rightarrow> fl \<Rightarrow> fl" where
  "py_min a b = (if fl_less b a then b else a)"

fun np_log :: "fl \<Rightarrow> fl" where
  "np_log (Fin x) = (if 0 < x then Fin (ln x) else if x = 0 then MInf else NaN)"
| "np_log PInf = PInf"
| "np_log MInf = NaN"
| "np_log NaN = NaN"

fun np_sqrt :: "fl \<Rightarrow> fl" where
  "np_sqrt (Fin x) = (if 0 \<le> x then Fin (sqrt x) else NaN)"
| "np_sqrt PInf = PInf"
| "np_sqrt MInf = NaN"
| "np_sqrt NaN = NaN"

text \<open>\<open>np.mean\<close> of a slice of observations: NaN when the slice is empty.\<close>

definition np_mean :: "real list \<Rightarrow> fl" where
  "np_mean xs = (if xs = [] then NaN else Fin (sum_list xs / real (length xs)))"

text \<open>The slices \<open>xs[a:b]\<close> with non-negative bounds, and \<open>xs[-w:]\<close>.\<close>

definition py_slice :: "nat \<Rightarrow> nat \<Rightarrow> 'a list \<Rightarrow> 'a list" where
  "py_slice a b xs = take (b - a) (drop a xs)"

definition py_last_slice :: "nat \<Rightarrow> 'a list \<Rightarrow> 'a list" where
  "py_last_slice w xs = (if w = 0 then xs else drop (length xs - w) xs)"

subsection \<open>Monitored\<close>

definition NB_ARMS :: nat where "NB_ARMS = 1"
definition WINDOW_SIZE :: nat where "WINDOW_SIZE = 80"

definition Monitored :: "real list \<Rightarrow> nat \<Rightarrow> nat \<Rightarrow> fl option \<Rightarrow> bool" where
  "Monitored all_data t window_size threshold_b =
     (let data = take t all_data in
      if length data < window_size then False
      else
        let horizon = length all_data;
            threshold_b' = (case threshold_b of
                None \<Rightarrow> np_sqrt (fl_mult (Fin (real window_size / 2))
                                  (np_log (Fin (real (2 * NB_ARMS * horizon ^ 2)))))
              | Some b \<Rightarrow> b);
            last_w_data = py_last_slice window_size data;
            sum_first_half = sum_list (take (window_size div 2) last_w_data);
            sum_second_half = sum_list (drop (window_size div 2) last_w_data)
        in fl_less threshold_b' (Fin \<bar>sum_first_half - sum_second_half\<bar>))"

subsection \<open>CUSUM and PHT\<close>

definition EPSILON :: real where "EPSILON = 1 / 2"
definition LAMBDA :: real where "LAMBDA = 1"
definition MIN_NUMBER_OF_OBSERVATION_BETWEEN_CHANGE_POINT :: nat where
  "MIN_NUMBER_OF_OBSERVATION_BETWEEN_CHANGE_POINT = 100"
definition MAX_NB_RANDOM_EVENTS :: nat where "MAX_NB_RANDOM_EVENTS = 1"

text \<open>\<open>scipy.special.comb(N, k)\<close>: zero outside \<open>0 \<le> k \<le> N\<close>.\<close>

definition comb :: "nat \<Rightarrow> int \<Rightarrow> real" where
  "comb N k = (if 0 \<le> k \<and> k \<le> int N then real (N choose nat k) else 0)"

text \<open>
  The parameters in the order of the source: \<open>horizon\<close>, \<open>verbose\<close>, \<open>M\<close>,
  \<open>max_nb_random_events\<close>, \<open>nbArms\<close>, \<open>epsilon\<close>, \<open>lmbda\<close>. The parameter
  \<open>verbose\<close> is not read by the body; it has the type of the value that the callers pass
  in its position. The quotients by \<open>(1 - epsilon)**2\<close> and \<open>(1 + epsilon)**2\<close> are
  divisions of Python floats, which raise \<open>ZeroDivisionError\<close>.
\<close>

definition compute_h__CUSUM ::
  "nat \<Rightarrow> nat \<Rightarrow> nat \<Rightarrow> nat \<Rightarrow> nat \<Rightarrow> real \<Rightarrow> real \<Rightarrow> error + fl" where
  "compute_h__CUSUM horizon verbose M max_nb_random_events nbArms epsilon lmbda =
     (let T = max 1 horizon;
          UpsilonT = max 1 max_nb_random_events;
          K = max 1 nbArms
      in if (1 - epsilon) ^ 2 = 0 then Inl ZeroDivisionError
         else
           let C1_minus = np_log (Fin (((4 * epsilon) / (1 - epsilon) ^ 2)
                            * comb M \<lfloor>2 * epsilon * real M\<rfloor> * (2 * epsilon) ^ M + 1))
           in if (1 + epsilon) ^ 2 = 0 then Inl ZeroDivisionError
              else
                let C1_plus = np_log (Fin (((4 * epsilon) / (1 + epsilon) ^ 2)
                                * comb M \<lceil>2 * epsilon * real M\<rceil> * (2 * epsilon) ^ M + 1));
                    C1 = py_min C1_minus C1_plus;
                    C1' = (if fl_eq C1 (Fin 0) then Fin 1 else C1);
                    h = fl_mult (fl_div (Fin 1) C1') (np_log (Fin (real T / real UpsilonT)))
                in Inr h)"

text \<open>
  The threshold of \<open>CUSUM\<close> and of \<open>PHT\<close>: the argument \<open>threshold_h\<close> when it is given,
  and otherwise the call \<^verbatim>\<open>compute_h__CUSUM(horizon, M, 1, epsilon=epsilon)\<close>, whose
  second and third positional arguments are bound to \<open>verbose\<close> and \<open>M\<close>.
\<close>

definition CUSUM_threshold :: "real list \<Rightarrow> real \<Rightarrow> nat \<Rightarrow> fl option \<Rightarrow> error + fl" where
  "CUSUM_threshold all_data epsilon M threshold_h =
     (let horizon = length all_data in
      case threshold_h of
        None \<Rightarrow> compute_h__CUSUM horizon M 1 MAX_NB_RANDOM_EVENTS 1 epsilon LAMBDA
      | Some h \<Rightarrow> Inr h)"

text \<open>The loop of \<open>CUSUM\<close> over \<open>enumerate(data)\<close>, with the running \<open>gp\<close> and \<open>gm\<close>.\<close>

fun CUSUM_loop :: "fl \<Rightarrow> real \<Rightarrow> nat \<Rightarrow> fl \<Rightarrow> (nat \<times> real) list \<Rightarrow> fl \<Rightarrow> fl \<Rightarrow> bool" where
  "CUSUM_loop u0hat epsilon M threshold_h [] gp gm = False"
| "CUSUM_loop u0hat epsilon M threshold_h ((k, y_k) # rest) gp gm =
     (if k \<le> M then CUSUM_loop u0hat epsilon M threshold_h rest gp gm
      else
        let sp = fl_sub (fl_sub u0hat (Fin y_k)) (Fin epsilon);
            sm = fl_sub (fl_sub (Fin y_k) u0hat) (Fin epsilon);
            gp' = py_max (Fin 0) (fl_add gp sp);
            gm' = py_max (Fin 0) (fl_add gm sm)
        in if fl_ge (py_max gp' gm') threshold_h then True
           else CUSUM_loop u0hat epsilon M threshold_h rest gp' gm')"

definition CUSUM :: "real list \<Rightarrow> nat \<Rightarrow> real \<Rightarrow> nat \<Rightarrow> fl option \<Rightarrow> error + bool" where
  "CUSUM all_data t epsilon M threshold_h =
     (let data = take t all_data in
      and_then (CUSUM_threshold all_data epsilon M threshold_h) (\<lambda>h.
        let u0hat = np_mean (py_slice 0 M data)
        in Inr (CUSUM_loop u0hat epsilon M h (zip [0..<length data] data) (Fin 0) (Fin 0))))"

text \<open>The loop of \<open>PHT\<close>: the reference mean is recomputed from \<open>data[:k]\<close> at every step.\<close>

fun PHT_loop :: "real list \<Rightarrow> real \<Rightarrow> fl \<Rightarrow> (nat \<times> real) list \<Rightarrow> fl \<Rightarrow> fl \<Rightarrow> bool" where
  "PHT_loop data epsilon threshold_h [] gp gm = False"
| "PHT_loop data epsilon threshold_h ((k, y_k) # rest) gp gm =
     (let y_k_hat = np_mean (py_slice 0 k data);
          sp = fl_sub (fl_sub y_k_hat (Fin y_k)) (Fin epsilon);
          sm = fl_sub (fl_sub (Fin y_k) y_k_hat) (Fin epsilon);
          gp' = py_max (Fin 0) (fl_add gp sp);
          gm' = py_max (Fin 0) (fl_add gm sm)
      in if fl_ge (py_max gp' gm') threshold_h then True
         else PHT_loop data epsilon threshold_h rest gp' gm')"

definition PHT :: "real list \<Rightarrow> nat \<Rightarrow> real \<Rightarrow> nat \<Rightarrow> fl option \<Rightarrow> error + bool" where
  "PHT all_data t epsilon M threshold_h =
     (let data = take t all_data in
      and_then (CUSUM_threshold all_data epsilon M threshold_h) (\<lambda>h.
        Inr (PHT_loop data epsilon h (zip [0..<length data] data) (Fin 0) (Fin 0))))"

subsection \<open>The threshold of CUSUM within the range of binary64\<close>

text \<open>
  \<open>compute_h__CUSUM\<close> above evaluates the formula in exact arithmetic; \<open>CUSUM\<close> and
  \<open>PHT\<close> call it with \<open>M = 1\<close>, where \<open>comb\<close> is 0 or 1. The source evaluates the
  formula in binary64, whose range is bounded: a value of magnitude \<open>2 ^ 1024\<close> or
  more is beyond the largest float and becomes an infinity, a value of magnitude
  \<open>2 ^ -1075\<close> or less becomes zero. \<open>np_float64\<close> applies these two bounds to the exact
  value of an operation; between them the value is kept as it is (the rounding of the
  mantissa is not modelled, so neither is its effect on the arguments of \<open>floor\<close> and
  \<open>ceil\<close>).
\<close>

definition np_float64 :: "real \<Rightarrow> fl" where
  "np_float64 x =
     (if 2 ^ 1024 \<le> \<bar>x\<bar> then signed_inf (0 < x)
      else if \<bar>x\<bar> * 2 ^ 1075 \<le> 1 then Fin 0
      else Fin x)"

fun fl_float64 :: "fl \<Rightarrow> fl" where
  "fl_float64 (Fin x) = np_float64 x"
| "fl_float64 PInf = PInf"
| "fl_float64 MInf = MInf"
| "fl_float64 NaN = NaN"

text \<open>
  \<open>x ** n\<close> for a Python float \<open>x\<close> and an int \<open>n \<ge> 0\<close>: \<open>OverflowError\<close> when the
  result is out of range, zero when it underflows. \<open>a / b\<close> for Python floats:
  \<open>ZeroDivisionError\<close> when \<open>b\<close> is zero.
\<close>

definition py_pow :: "real \<Rightarrow> nat \<Rightarrow> error + fl" where
  "py_pow x n = (if 2 ^ 1024 \<le> \<bar>x ^ n\<bar> then Inl OverflowError else Inr (np_float64 (x ^ n)))"

definition py_truediv :: "fl \<Rightarrow> fl \<Rightarrow> error + fl" where
  "py_truediv a b = (if b = Fin 0 then Inl ZeroDivisionError else Inr (fl_float64 (fl_div a b)))"

text \<open>
  The expression of \<open>C1_minus\<close> and of \<open>C1_plus\<close>,
  \<^verbatim>\<open>np.log(((4 * epsilon) / base**2) * comb(M, k) * (2 * epsilon)**M + 1)\<close>,
  with \<open>base = 1 - epsilon\<close>, \<open>k = int(np.floor(2 * epsilon * M))\<close> for the first and
  \<open>base = 1 + epsilon\<close>, \<open>k = int(np.ceil(2 * epsilon * M))\<close> for the second, evaluated from
  left to right. \<open>scipy.special.comb\<close> returns a numpy float, an infinity when the
  binomial coefficient is out of range, and the products with it are products of numpy
  floats: \<open>inf * 0.0\<close> is NaN.
\<close>

definition C1_binary64 :: "real \<Rightarrow> real \<Rightarrow> nat \<Rightarrow> int \<Rightarrow> error + fl" where
  "C1_binary64 epsilon base M k =
     and_then (py_pow base 2) (\<lambda>square.
       and_then (py_truediv (np_float64 (4 * epsilon)) square) (\<lambda>quotient.
         let with_comb = fl_float64 (fl_mult quotient (np_float64 (comb M k)))
         in and_then (py_pow (2 * epsilon) M) (\<lambda>power.
              Inr (np_log (fl_float64 (fl_add (fl_float64 (fl_mult with_comb power)) (Fin 1)))))))"

text \<open>
  The quotient \<open>T / UpsilonT\<close> is a true division of Python ints, which raises
  \<open>OverflowError\<close> when the result is out of range.
\<close>

definition compute_h__CUSUM_binary64 ::
  "nat \<Rightarrow> nat \<Rightarrow> nat \<Rightarrow> nat \<Rightarrow> nat \<Rightarrow> real \<Rightarrow> real \<Rightarrow> error + fl" where
  "compute_h__CUSUM_binary64 horizon verbose M max_nb_random_events nbArms epsilon lmbda =
     (let T = max 1 horizon;
          UpsilonT = max 1 max_nb_random_events;
          K = max 1 nbArms
      in and_then (C1_binary64 epsilon (1 - epsilon) M \<lfloor>2 * epsilon * real M\<rfloor>) (\<lambda>C1_minus.
           and_then (C1_binary64 epsilon (1 + epsilon) M \<lceil>2 * epsilon * real M\<rceil>) (\<lambda>C1_plus.
             let C1 = py_min C1_minus C1_plus;
                 C1' = (if fl_eq C1 (Fin 0) then Fin 1 else C1)
             in if 2 ^ 1024 \<le> real T / real UpsilonT then Inl OverflowError
                else Inr (fl_float64 (fl_mult (fl_float64 (fl_div (Fin 1) C1'))
                                        (np_log (np_float64 (real T / real UpsilonT))))))))"

subsection \<open>The generalised likelihood ratio tests\<close>

definition compute_c__GLR :: "int \<Rightarrow> int \<Rightarrow> int \<Rightarrow> fl" where
  "compute_c__GLR t0 t horizon =
     (let T = max 1 horizon;
          delta = 1 / real_of_int T;
          t_m_t0 = \<bar>t - t0\<bar>;
          c = fl_mult (Fin ((1 + (1 / (real_of_int t_m_t0 + 1))) * 2))
                (np_log (fl_div (fl_mult (Fin (real_of_int (2 * t_m_t0)))
                                    (np_sqrt (Fin (real_of_int (t_m_t0 + 2)))))
                                (Fin delta)))
      in if fl_less c (Fin 0) \<and> fl_isinf c then PInf else c)"

definition klGauss :: "fl \<Rightarrow> fl \<Rightarrow> real \<Rightarrow> fl" where
  "klGauss x y sig2x = fl_div (fl_mult (fl_sub x y) (fl_sub x y)) (Fin (2 * sig2x))"

definition eps :: real where "eps = 1 / 1000000"

definition klBern :: "fl \<Rightarrow> fl \<Rightarrow> fl" where
  "klBern x y =
     (let x' = py_min (py_max x (Fin eps)) (Fin (1 - eps));
          y' = py_min (py_max y (Fin eps)) (Fin (1 - eps))
      in fl_add (fl_mult x' (np_log (fl_div x' y')))
                (fl_mult (fl_sub (Fin 1) x') (np_log (fl_div (fl_sub (Fin 1) x') (fl_sub (Fin 1) y')))))"

text \<open>\<^verbatim>\<open>mu = lambda a, b: np.mean(data[a : b+1])\<close>\<close>

definition mu :: "real list \<Rightarrow> nat \<Rightarrow> nat \<Rightarrow> fl" where
  "mu data a b = np_mean (py_slice a (b + 1) data)"

text \<open>
  The statistic of one split point \<open>s\<close>, for the divergence \<open>kl\<close>, and the loop over
  \<open>range(t0, t - 1)\<close> with \<open>t0 = 0\<close>, shared by the two tests.
\<close>

definition glr_statistic :: "(fl \<Rightarrow> fl \<Rightarrow> fl) \<Rightarrow> real list \<Rightarrow> nat \<Rightarrow> nat \<Rightarrow> fl" where
  "glr_statistic kl data t s =
     (let this_kl = kl (mu data (s + 1) t) (mu data 0 s)
      in fl_mult (Fin (real ((s + 1) * (t - s)) / real (t + 1))) this_kl)"

fun GLR_loop :: "(fl \<Rightarrow> fl \<Rightarrow> fl) \<Rightarrow> real list \<Rightarrow> nat \<Rightarrow> fl \<Rightarrow> nat list \<Rightarrow> bool" where
  "GLR_loop kl data t threshold_h [] = False"
| "GLR_loop kl data t threshold_h (s # rest) =
     (if fl_ge (glr_statistic kl data t s) threshold_h then True
      else GLR_loop kl data t threshold_h rest)"

definition GLR_threshold :: "real list \<Rightarrow> nat \<Rightarrow> fl option \<Rightarrow> fl" where
  "GLR_threshold all_data t threshold_h =
     (case threshold_h of
        None \<Rightarrow> compute_c__GLR 0 (int t) (int (length all_data))
      | Some h \<Rightarrow> h)"

definition GaussianGLR :: "real list \<Rightarrow> nat \<Rightarrow> fl option \<Rightarrow> bool" where
  "GaussianGLR all_data t threshold_h =
     (let data = take t all_data
      in GLR_loop (\<lambda>x y. klGauss x y (1 / 4)) data t (GLR_threshold all_data t threshold_h)
           [0..<t - 1])"

definition BernoulliGLR :: "real list \<Rightarrow> nat \<Rightarrow> fl option \<Rightarrow> bool" where
  "BernoulliGLR all_data t threshold_h =
     (let data = take t all_data
      in GLR_loop klBern data t (GLR_threshold all_data t threshold_h) [0..<t - 1])"

section \<open>Properties of the change-point detectors\<close>

subsection \<open>The detectors read the visible prefix only\<close>

lemma take_eq_of_agree:
  assumes "length xs = length ys" and "\<forall>i < min t (length xs). xs ! i = ys ! i"
  shows "take t xs = take t ys"
  using assms by (intro nth_equalityI) auto

text \<open>
  Claim C8. Each of \<open>Monitored\<close>, \<open>CUSUM\<close>, \<open>PHT\<close>, \<open>GaussianGLR\<close> and \<open>BernoulliGLR\<close>
  is a function of the visible prefix \<open>observations[0:t]\<close>, of the length of the stream
  and of its numeric parameters: on two streams of the same length that agree on the
  indices below \<open>t\<close>, with the same parameters, it returns the same result at time \<open>t\<close>.
\<close>

theorem detectors_read_only_prefix:
  assumes "length xs = length ys" and "\<forall>i < min t (length xs). xs ! i = ys ! i"
  shows "Monitored xs t window_size threshold_b = Monitored ys t window_size threshold_b
       \<and> CUSUM xs t epsilon M threshold_h = CUSUM ys t epsilon M threshold_h
       \<and> PHT xs t epsilon M threshold_h = PHT ys t epsilon M threshold_h
       \<and> GaussianGLR xs t threshold_h = GaussianGLR ys t threshold_h
       \<and> BernoulliGLR xs t threshold_h = BernoulliGLR ys t threshold_h"
proof -
  have tk: "take t xs = take t ys"
    using assms by (rule take_eq_of_agree)
  have len: "length xs = length ys" by fact
  show ?thesis
    by (simp add: Monitored_def CUSUM_def PHT_def GaussianGLR_def BernoulliGLR_def
        CUSUM_threshold_def GLR_threshold_def tk len cong: option.case_cong)
qed

theorem detectors_read_only_prefix_witness:
  "length [0, 1, 5 :: real] = length [0, 1, 7 :: real]
   \<and> Monitored [0, 1, 5] 2 2 None = Monitored [0, 1, 7] 2 2 None
   \<and> CUSUM [0, 1, 5] 2 (1 / 2) 1 None = CUSUM [0, 1, 7] 2 (1 / 2) 1 None
   \<and> PHT [0, 1, 5] 2 (1 / 2) 1 None = PHT [0, 1, 7] 2 (1 / 2) 1 None
   \<and> GaussianGLR [0, 1, 5] 2 None = GaussianGLR [0, 1, 7] 2 None
   \<and> BernoulliGLR [0, 1, 5] 2 None = BernoulliGLR [0, 1, 7] 2 None"
proof -
  have h1: "length [0, 1, 5 :: real] = length [0, 1, 7 :: real]" by simp
  have h2: "\<forall>i < min 2 (length [0, 1, 5 :: real]). [0, 1, 5 :: real] ! i = [0, 1, 7] ! i"
    by (simp add: less_Suc_eq nth_Cons' numeral_2_eq_2)
  show ?thesis
    using h1 h2 detectors_read_only_prefix [OF h1 h2, of 2 None "1 / 2" 1 None] by blast
qed

subsection \<open>The threshold of CUSUM and PHT\<close>

text \<open>
  Claim C2 says that \<open>CUSUM\<close> and \<open>PHT\<close>, called without \<open>threshold_h\<close>, use the threshold
  that \<open>compute_h__CUSUM\<close> gives for the caller's \<open>M\<close>. The call in the source passes
  \<open>M\<close> in the position of \<open>verbose\<close> and the constant \<open>1\<close> in the position of \<open>M\<close>.
  With \<open>epsilon = 1/4\<close>, \<open>M = 4\<close> and a stream of length 10, the threshold used is
  \<open>ln 10 / ln (33/25)\<close>, the value for \<open>M = 1\<close>, and not \<open>ln 10 / ln (31/25)\<close>, the
  value for \<open>M = 4\<close>.
\<close>

theorem CUSUM_threshold_ignores_M:
  "CUSUM_threshold (replicate 10 0) (1 / 4) 4 None = Inr (Fin (ln 10 / ln (33 / 25)))
   \<and> compute_h__CUSUM 10 0 4 MAX_NB_RANDOM_EVENTS 1 (1 / 4) LAMBDA = Inr (Fin (ln 10 / ln (31 / 25)))
   \<and> CUSUM_threshold (replicate 10 0) (1 / 4) 4 None
       \<noteq> compute_h__CUSUM 10 0 4 MAX_NB_RANDOM_EVENTS 1 (1 / 4) LAMBDA"
proof -
  have f0: "\<lfloor>1 / 2 :: real\<rfloor> = 0" "\<lceil>1 / 2 :: real\<rceil> = 1" by linarith+
  have a: "CUSUM_threshold (replicate 10 0) (1 / 4) 4 None = Inr (Fin (ln 10 / ln (33 / 25)))"
    by (simp add: CUSUM_threshold_def compute_h__CUSUM_def comb_def MAX_NB_RANDOM_EVENTS_def
        py_min_def fl_eq_def power2_eq_square f0)
  have c42: "(4 choose 2) = (6::nat)" by (simp add: numeral_eq_Suc)
  have b: "compute_h__CUSUM 10 0 4 MAX_NB_RANDOM_EVENTS 1 (1 / 4) LAMBDA = Inr (Fin (ln 10 / ln (31 / 25)))"
    by (simp add: compute_h__CUSUM_def comb_def MAX_NB_RANDOM_EVENTS_def
        py_min_def fl_eq_def power2_eq_square c42 power_divide)
  have "ln (33 / 25 :: real) \<noteq> ln (31 / 25)" by simp
  moreover have "ln (10::real) \<noteq> 0" by simp
  moreover have "ln (33 / 25 :: real) \<noteq> 0" "ln (31 / 25 :: real) \<noteq> 0" by simp_all
  ultimately have "ln 10 / ln (33 / 25 :: real) \<noteq> ln 10 / ln (31 / 25)"
    by (simp add: field_simps)
  with a b show ?thesis by simp
qed

subsection \<open>Monitored\<close>

text \<open>
  Claim C4. With a window of \<open>w \<ge> 1\<close> samples and \<open>t\<close> within the stream, \<open>Monitored\<close>
  detects nothing when fewer than \<open>w\<close> samples are visible (\<open>t < w\<close>). Otherwise, with no
  threshold given, it detects if and only if the absolute difference between the sum of
  the first \<open>w div 2\<close> and the sum of the remaining ones of the last \<open>w\<close> visible samples
  is greater than \<open>b = sqrt (w / 2 * ln (2 * K * T\<^sup>2))\<close>, where \<open>T\<close> is the length of
  the stream and \<open>K = NB_ARMS = 1\<close>.
\<close>

theorem Monitored_spec:
  assumes "0 < window_size" and "t \<le> length all_data"
  shows "NB_ARMS = 1 \<and>
     Monitored all_data t window_size None =
     (if t < window_size then False
      else sqrt (real window_size / 2 * ln (2 * real NB_ARMS * (real (length all_data))\<^sup>2))
          < \<bar>sum_list (take (window_size div 2) (drop (t - window_size) (take t all_data)))
            - sum_list (drop (window_size div 2) (drop (t - window_size) (take t all_data)))\<bar>)"
proof (cases "t < window_size")
  case True
  with assms show ?thesis by (simp add: Monitored_def NB_ARMS_def)
next
  case False
  with assms have T: "1 \<le> length all_data" by linarith
  then have "1 \<le> real (length all_data)" by simp
  then have "1 \<le> (real (length all_data))\<^sup>2" by (metis one_le_power)
  then have arg: "1 < 2 * (real (length all_data))\<^sup>2" by linarith
  then have "0 < ln (2 * (real (length all_data))\<^sup>2)" by (rule ln_gt_zero)
  then have nonneg: "0 \<le> real window_size / 2 * ln (2 * (real (length all_data))\<^sup>2)" by simp
  from arg have pos: "0 < 2 * (real (length all_data))\<^sup>2" by linarith
  show ?thesis
    using False assms nonneg pos
    by (simp add: Monitored_def NB_ARMS_def py_last_slice_def min_absorb2 Let_def)
qed

theorem Monitored_spec_witness:
  "(0::nat) < 2 \<and> (4::nat) \<le> length [0, 0, 9, 0 :: real] \<and> NB_ARMS = 1 \<and>
   Monitored [0, 0, 9, 0] 4 2 None = (sqrt (ln 32) < 9) \<and> Monitored [0, 0, 9, 0] 4 2 None"
proof -
  have h1: "(0::nat) < 2" by simp
  have h2: "(4::nat) \<le> length [0, 0, 9, 0 :: real]" by simp
  have "ln (32::real) < 32" using ln_less_self [of 32] by simp
  then have "sqrt (ln 32) < sqrt 81" by (simp only: real_sqrt_less_iff)
  then have lt: "sqrt (ln 32) < 9" by simp
  show ?thesis
    using Monitored_spec [OF h1 h2] lt by (simp add: NB_ARMS_def)
qed

subsection \<open>The generalised likelihood ratio tests\<close>

text \<open>
  The loop of the two tests returns true exactly when the statistic of some split point
  \<open>s\<close> in \<open>[0, t - 2]\<close> is greater than or equal to the threshold. For \<open>t\<close> within the
  stream, the means of the statistic are those of the visible samples after \<open>s\<close>,
  \<open>all_data[s+1:t]\<close>, and of the samples up to \<open>s\<close>, \<open>all_data[0:s+1]\<close>.
\<close>

lemma GLR_loop_iff:
  "GLR_loop kl data t h ss = (\<exists>s \<in> set ss. fl_ge (glr_statistic kl data t s) h)"
  by (induction ss) auto

lemma GaussianGLR_iff:
  "GaussianGLR all_data t threshold_h =
     (\<exists>s < t - 1. fl_ge (glr_statistic (\<lambda>x y. klGauss x y (1 / 4)) (take t all_data) t s)
                      (GLR_threshold all_data t threshold_h))"
  by (auto simp add: GaussianGLR_def GLR_loop_iff)

lemma BernoulliGLR_iff:
  "BernoulliGLR all_data t threshold_h =
     (\<exists>s < t - 1. fl_ge (glr_statistic klBern (take t all_data) t s)
                      (GLR_threshold all_data t threshold_h))"
  by (auto simp add: BernoulliGLR_def GLR_loop_iff)

lemma mu_visible:
  assumes "t \<le> length all_data" and "s + 1 < t"
  shows "mu (take t all_data) (s + 1) t
           = Fin (sum_list (py_slice (s + 1) t all_data) / real (t - (s + 1)))"
    and "mu (take t all_data) 0 s = Fin (sum_list (py_slice 0 (s + 1) all_data) / real (s + 1))"
proof -
  have a: "py_slice (s + 1) (t + 1) (take t all_data) = py_slice (s + 1) t all_data"
    using assms by (simp add: py_slice_def drop_take)
  have la: "length (py_slice (s + 1) t all_data) = t - (s + 1)"
    using assms by (simp add: py_slice_def)
  have b: "py_slice 0 (s + 1) (take t all_data) = py_slice 0 (s + 1) all_data"
    using assms by (simp add: py_slice_def min_absorb1)
  have lb: "length (py_slice 0 (s + 1) all_data) = s + 1"
    using assms by (simp add: py_slice_def)
  from la assms have nea: "py_slice (s + 1) t all_data \<noteq> []" by auto
  from lb have neb: "py_slice 0 (s + 1) all_data \<noteq> []" by auto
  show "mu (take t all_data) (s + 1) t
           = Fin (sum_list (py_slice (s + 1) t all_data) / real (t - (s + 1)))"
    unfolding mu_def a np_mean_def using nea la by simp
  show "mu (take t all_data) 0 s = Fin (sum_list (py_slice 0 (s + 1) all_data) / real (s + 1))"
    unfolding mu_def b np_mean_def using neb lb by simp
qed

lemma glr_statistic_klGauss:
  assumes "t \<le> length all_data" and "s + 1 < t"
  shows "glr_statistic (\<lambda>x y. klGauss x y (1 / 4)) (take t all_data) t s
     = Fin (real ((s + 1) * (t - s)) / real (t + 1)
            * ((sum_list (py_slice (s + 1) t all_data) / real (t - (s + 1))
                - sum_list (py_slice 0 (s + 1) all_data) / real (s + 1))\<^sup>2 / (2 * (1 / 4))))"
  unfolding glr_statistic_def Let_def mu_visible [OF assms] klGauss_def
  by (simp add: fl_sub_def power2_eq_square)

text \<open>
  Claim C5 says that \<open>GaussianGLR\<close> and \<open>BernoulliGLR\<close> return true if and only if the
  statistic of some split point exceeds the threshold \<open>h\<close>, as their docstrings do
  (\<open>G > h\<close>). The source compares with \<open>>=\<close>. On the stream \<open>[0, 0]\<close> at \<open>t = 2\<close> with
  \<open>threshold_h = 0\<close>, the statistic of the only split point \<open>s = 0\<close> is \<open>0\<close>, which does
  not exceed the threshold, and both tests return true.
\<close>

theorem GLR_detects_at_equality:
  "GaussianGLR [0, 0] 2 (Some (Fin 0))
   \<and> glr_statistic (\<lambda>x y. klGauss x y (1 / 4)) (take 2 [0, 0]) 2 0 = Fin 0
   \<and> BernoulliGLR [0, 0] 2 (Some (Fin 0))
   \<and> glr_statistic klBern (take 2 [0, 0]) 2 0 = Fin 0
   \<and> \<not> fl_less (Fin 0) (Fin 0)"
  by (simp add: GaussianGLR_def BernoulliGLR_def GLR_threshold_def glr_statistic_def mu_def
      np_mean_def py_slice_def klGauss_def klBern_def fl_sub_def fl_ge_def fl_eq_def
      py_min_def py_max_def eps_def)

subsection \<open>CUSUM and PHT on a constant stream\<close>

text \<open>With the default \<open>epsilon\<close>, the threshold depends on the length of the stream only.\<close>

lemma CUSUM_threshold_default_epsilon:
  "CUSUM_threshold xs EPSILON M None = Inr (Fin (ln (real (max 1 (length xs))) / ln (17 / 9)))"
  by (simp add: CUSUM_threshold_def compute_h__CUSUM_def comb_def MAX_NB_RANDOM_EVENTS_def
      EPSILON_def py_min_def fl_eq_def power2_eq_square Let_def)

lemma threshold_positive:
  assumes "2 \<le> n"
  shows "fl_less (Fin 0) (Fin (ln (real (max 1 n)) / ln (17 / 9)))"
proof -
  have "1 < real (max 1 n)" using assms by simp
  then have "0 < ln (real (max 1 n))" by (rule ln_gt_zero)
  moreover have "0 < ln (17 / 9 :: real)" by simp
  ultimately show ?thesis by simp
qed

lemma not_ge_zero: "fl_less (Fin 0) h \<Longrightarrow> \<not> fl_ge (Fin 0) h"
  by (cases h) (auto simp add: fl_ge_def fl_eq_def)

lemma np_mean_replicate: "np_mean (replicate m v) = (if m = 0 then NaN else Fin v)"
  by (simp add: np_mean_def sum_list_replicate)

text \<open>
  On a constant stream the running sums \<open>gp\<close> and \<open>gm\<close> stay zero. \<open>CUSUM\<close> never detects
  a change; \<open>PHT\<close> never detects one on a stream whose length is not 1.
\<close>

lemma CUSUM_loop_constant:
  assumes "0 < epsilon" and "u0hat = NaN \<or> u0hat = Fin v"
    and "\<forall>(k, y) \<in> set ps. y = v \<and> (M < k \<longrightarrow> fl_less (Fin 0) h)"
  shows "CUSUM_loop u0hat epsilon M h ps (Fin 0) (Fin 0) = False"
  using assms(3)
proof (induction ps)
  case Nil
  show ?case by simp
next
  case (Cons p ps)
  obtain k y where p: "p = (k, y)" by (cases p)
  from Cons.prems p have y: "y = v" and h: "M < k \<longrightarrow> \<not> fl_ge (Fin 0) h"
    by (auto dest: not_ge_zero)
  from Cons have IH: "CUSUM_loop u0hat epsilon M h ps (Fin 0) (Fin 0) = False" by simp
  from assms(2) show ?case
    using assms(1) h IH
    by (auto simp add: p y fl_sub_def py_max_def)
qed

lemma CUSUM_constant_no_detection:
  "CUSUM (replicate n v) t EPSILON M None = Inr False"
proof -
  have "CUSUM_loop (np_mean (py_slice 0 M (take t (replicate n v)))) EPSILON M
          (Fin (ln (real (max 1 n)) / ln (17 / 9)))
          (zip [0..<length (take t (replicate n v))] (take t (replicate n v))) (Fin 0) (Fin 0) = False"
  proof (rule CUSUM_loop_constant [where v = v])
    show "0 < EPSILON" by (simp add: EPSILON_def)
    show "np_mean (py_slice 0 M (take t (replicate n v))) = NaN
          \<or> np_mean (py_slice 0 M (take t (replicate n v))) = Fin v"
      by (simp add: py_slice_def np_mean_replicate)
    show "\<forall>(k, y) \<in> set (zip [0..<length (take t (replicate n v))] (take t (replicate n v))).
            y = v \<and> (M < k \<longrightarrow> fl_less (Fin 0) (Fin (ln (real (max 1 n)) / ln (17 / 9))))"
    proof (clarify, intro conjI impI)
      fix k y
      assume mem: "(k, y) \<in> set (zip [0..<length (take t (replicate n v))] (take t (replicate n v)))"
      from mem show "y = v" by (auto dest: set_zip_rightD)
      assume "M < k"
      moreover from mem have "k < n" by (auto dest: set_zip_leftD)
      ultimately have "2 \<le> n" by simp
      then show "fl_less (Fin 0) (Fin (ln (real (max 1 n)) / ln (17 / 9)))"
        by (rule threshold_positive)
    qed
  qed
  then show ?thesis
    by (simp add: CUSUM_def CUSUM_threshold_default_epsilon and_then_def)
qed

lemma PHT_loop_constant:
  assumes "0 < epsilon" and "fl_less (Fin 0) h"
    and "\<forall>(k, y) \<in> set ps. y = v \<and> (np_mean (py_slice 0 k data) = NaN \<or> np_mean (py_slice 0 k data) = Fin v)"
  shows "PHT_loop data epsilon h ps (Fin 0) (Fin 0) = False"
  using assms(3)
proof (induction ps)
  case Nil
  show ?case by simp
next
  case (Cons p ps)
  obtain k y where p: "p = (k, y)" by (cases p)
  from Cons.prems p have y: "y = v"
    and m: "np_mean (py_slice 0 k data) = NaN \<or> np_mean (py_slice 0 k data) = Fin v" by auto
  from Cons have IH: "PHT_loop data epsilon h ps (Fin 0) (Fin 0) = False" by simp
  from m show ?case
    using assms(1) not_ge_zero [OF assms(2)] IH
    by (auto simp add: p y fl_sub_def py_max_def)
qed

lemma PHT_constant_no_detection:
  assumes "n \<noteq> 1"
  shows "PHT (replicate n v) t EPSILON M None = Inr False"
proof (cases "n = 0")
  case True
  then show ?thesis
    by (simp add: PHT_def CUSUM_threshold_default_epsilon and_then_def)
next
  case False
  with assms have n: "2 \<le> n" by simp
  have "PHT_loop (take t (replicate n v)) EPSILON (Fin (ln (real (max 1 n)) / ln (17 / 9)))
          (zip [0..<length (take t (replicate n v))] (take t (replicate n v))) (Fin 0) (Fin 0) = False"
  proof (rule PHT_loop_constant [where v = v])
    show "0 < EPSILON" by (simp add: EPSILON_def)
    show "fl_less (Fin 0) (Fin (ln (real (max 1 n)) / ln (17 / 9)))"
      using n by (rule threshold_positive)
    show "\<forall>(k, y) \<in> set (zip [0..<length (take t (replicate n v))] (take t (replicate n v))).
            y = v \<and> (np_mean (py_slice 0 k (take t (replicate n v))) = NaN
                   \<or> np_mean (py_slice 0 k (take t (replicate n v))) = Fin v)"
    proof (clarify, intro conjI)
      fix k y
      assume mem: "(k, y) \<in> set (zip [0..<length (take t (replicate n v))] (take t (replicate n v)))"
      from mem show "y = v" by (auto dest: set_zip_rightD)
      show "np_mean (py_slice 0 k (take t (replicate n v))) = NaN
            \<or> np_mean (py_slice 0 k (take t (replicate n v))) = Fin v"
        by (simp add: py_slice_def np_mean_replicate)
    qed
  qed
  then show ?thesis
    by (simp add: PHT_def CUSUM_threshold_default_epsilon and_then_def)
qed

text \<open>
  Claim C6 says that on every constant stream \<open>CUSUM\<close> and \<open>PHT\<close> with the default
  parameters return false for every \<open>t\<close> up to the horizon. On the stream \<open>[0.5]\<close> of
  length 1 the threshold is \<open>ln 1 / ln (17/9) = 0\<close>; at \<open>t = 1\<close> the running sums of
  \<open>PHT\<close> are zero, the test \<open>max(gp, gm) >= threshold_h\<close> holds, and \<open>PHT\<close> returns true.
\<close>

theorem PHT_detects_on_singleton_stream:
  "PHT [1 / 2] 1 EPSILON MIN_NUMBER_OF_OBSERVATION_BETWEEN_CHANGE_POINT None = Inr True
   \<and> CUSUM_threshold [1 / 2] EPSILON MIN_NUMBER_OF_OBSERVATION_BETWEEN_CHANGE_POINT None = Inr (Fin 0)"
  by (simp add: PHT_def CUSUM_threshold_def compute_h__CUSUM_def and_then_def comb_def
      MAX_NB_RANDOM_EVENTS_def EPSILON_def py_min_def fl_eq_def fl_ge_def py_max_def np_mean_def
      py_slice_def fl_sub_def power2_eq_square)

section \<open>Properties of the collision models\<close>

subsection \<open>Loops and the statements they share\<close>

lemma and_then_Inr_iff: "and_then m f = Inr y \<longleftrightarrow> (\<exists>x. m = Inr x \<and> f x = Inr y)"
  by (cases m) (simp_all add: and_then_def)

lemma for_each_related:
  assumes "for_each f xs s = Inr s'"
    and "\<And>s. R s s"
    and "\<And>s1 s2 s3. R s1 s2 \<Longrightarrow> R s2 s3 \<Longrightarrow> R s1 s3"
    and "\<And>x s s1. x \<in> set xs \<Longrightarrow> f x s = Inr s1 \<Longrightarrow> R s s1"
  shows "R s s'"
  using assms(1,4)
proof (induction xs arbitrary: s)
  case Nil
  then show ?case using assms(2) by simp
next
  case (Cons x xs)
  from Cons.prems(1) obtain s1 where s1: "f x s = Inr s1" and rest: "for_each f xs s1 = Inr s'"
    by (auto simp add: and_then_Inr_iff)
  have "R s s1" using s1 Cons.prems(2) [of x s s1] by simp
  moreover have "R s1 s'" using rest Cons.prems(2) by (intro Cons.IH) auto
  ultimately show ?case by (rule assms(3))
qed

lemma for_each_total:
  assumes "I s"
    and "\<And>x s. x \<in> set xs \<Longrightarrow> I s \<Longrightarrow> \<exists>s1. f x s = Inr s1 \<and> I s1"
  shows "\<exists>s'. for_each f xs s = Inr s' \<and> I s'"
  using assms
proof (induction xs arbitrary: s)
  case Nil
  then show ?case by simp
next
  case (Cons x xs)
  from Cons.prems obtain s1 where s1: "f x s = Inr s1" "I s1" by fastforce
  from Cons.IH [OF s1(2)] Cons.prems(2) obtain s' where "for_each f xs s1 = Inr s'" "I s'"
    by auto
  with s1 show ?case by (auto simp add: and_then_Inr_iff)
qed

lemma for_each_additive:
  fixes m :: "'s \<Rightarrow> int"
  assumes "for_each f xs s = Inr s'"
    and "\<And>x s s1. x \<in> set xs \<Longrightarrow> f x s = Inr s1 \<Longrightarrow> m s1 = m s + d x"
  shows "m s' = m s + sum_list (map d xs)"
  using assms
proof (induction xs arbitrary: s)
  case Nil
  then show ?case by simp
next
  case (Cons x xs)
  from Cons.prems(1) obtain s1 where s1: "f x s = Inr s1" and rest: "for_each f xs s1 = Inr s'"
    by (auto simp add: and_then_Inr_iff)
  have "m s1 = m s + d x" using s1 Cons.prems(2) by simp
  moreover have "m s' = m s1 + sum_list (map d xs)" using rest Cons.prems(2) by (intro Cons.IH) auto
  ultimately show ?case by simp
qed

text \<open>
  A view \<open>G s i\<close> of the state that only the step of \<open>owner\<close> rewrites, and only when
  \<open>T\<close> holds: after the loop over distinct steps it has been rewritten at most once.
\<close>

lemma for_each_owned:
  assumes "for_each f xs s = Inr s'" and "distinct xs"
    and "\<And>x s s1. x \<in> set xs \<Longrightarrow> f x s = Inr s1 \<Longrightarrow>
            G s1 i = (if owner = x \<and> T then H (G s i) else G s i)"
  shows "G s' i = (if owner \<in> set xs \<and> T then H (G s i) else G s i)"
  using assms
proof (induction xs arbitrary: s)
  case Nil
  then show ?case by simp
next
  case (Cons x xs)
  from Cons.prems(1) obtain s1 where s1: "f x s = Inr s1" and rest: "for_each f xs s1 = Inr s'"
    by (auto simp add: and_then_Inr_iff)
  have a: "G s1 i = (if owner = x \<and> T then H (G s i) else G s i)"
    using s1 Cons.prems(3) by simp
  have b: "G s' i = (if owner \<in> set xs \<and> T then H (G s1 i) else G s1 i)"
    using rest Cons.prems(2,3) by (intro Cons.IH) auto
  from Cons.prems(2) have "x \<notin> set xs" by simp
  with a b show ?case by auto
qed

lemma incr_collisions_Inr:
  "incr_collisions arm k s = Inr s' \<longleftrightarrow>
     arm < length (collisions s) \<and> s' = s\<lparr>collisions := (collisions s)[arm := collisions s ! arm + k]\<rparr>"
  by (auto simp add: incr_collisions_def)

lemma draw_and_reward_Inr:
  "draw_and_reward w i arm s = Inr s' \<longleftrightarrow>
     arm < len_arms w \<and> i < length (rewards s) \<and> i < len_players w \<and> i < length (pulls s) \<and>
     arm < length (pulls s ! i) \<and>
     s' = s\<lparr>rewards := (rewards s)[i := draw w arm i],
            calls := calls s @ [GetReward i arm (draw w arm i)],
            pulls := (pulls s)[i := one_more_pull (pulls s ! i) arm]\<rparr>"
  by (auto simp add: draw_and_reward_def one_more_pull_def Let_def)

lemma notify_collision_Inr:
  "notify_collision w j arm s = Inr s' \<longleftrightarrow>
     j < len_players w \<and> s' = s\<lparr>calls := calls s @ [collision_notice w j arm]\<rparr>"
  by (auto simp add: notify_collision_def)

lemma notify_others_Inr:
  "notify_others w arm i ps s = Inr s' \<longleftrightarrow>
     (\<forall>j \<in> set ps. j \<noteq> i \<longrightarrow> j < len_players w) \<and>
     s' = s\<lparr>calls := calls s @ map (\<lambda>j. collision_notice w j arm) (filter (\<lambda>j. i \<noteq> j) ps)\<rparr>"
  unfolding notify_others_def
proof (induction ps arbitrary: s)
  case Nil
  show ?case by auto
next
  case (Cons j ps)
  show ?case
  proof (cases "i = j")
    case True
    let ?F = "\<lambda>j s'. if i \<noteq> j then notify_collision w j arm s' else Inr s'"
    from True have step: "for_each ?F (j # ps) s = for_each ?F ps s"
      by (simp add: and_then_def)
    from True have filt: "filter (\<lambda>j. i \<noteq> j) (j # ps) = filter (\<lambda>j. i \<noteq> j) ps"
      by simp
    from True have mem: "(\<forall>k \<in> set (j # ps). k \<noteq> i \<longrightarrow> k < len_players w)
        \<longleftrightarrow> (\<forall>k \<in> set ps. k \<noteq> i \<longrightarrow> k < len_players w)"
      by simp
    show ?thesis unfolding step filt mem by (rule Cons.IH)
  next
    case False
    then show ?thesis
      by (simp add: and_then_Inr_iff Cons.IH notify_collision_Inr)
  qed
qed

lemma for_each_emits:
  assumes "for_each f xs s = Inr s'" and "y \<in> set xs"
    and "\<And>x s s1. x \<in> set xs \<Longrightarrow> f x s = Inr s1 \<Longrightarrow> \<exists>ev. c s1 = c s @ ev"
    and "\<And>s s1. f y s = Inr s1 \<Longrightarrow> \<exists>ev. c s1 = c s @ ev \<and> e \<in> set ev"
  shows "\<exists>ev. c s' = c s @ ev \<and> e \<in> set ev"
  using assms(1,2,3)
proof (induction xs arbitrary: s)
  case Nil
  then show ?case by simp
next
  case (Cons x xs)
  from Cons.prems(1) obtain s1 where s1: "f x s = Inr s1" and rest: "for_each f xs s1 = Inr s'"
    by (auto simp add: and_then_Inr_iff)
  have ext: "\<exists>ev. c s' = c s1 @ ev"
  proof (rule for_each_related [OF rest, where R = "\<lambda>a b. \<exists>ev. c b = c a @ ev"])
    show "\<exists>ev. c s = c s @ ev" for s by simp
    show "\<exists>ev. c s3 = c s1 @ ev" if "\<exists>ev. c s2 = c s1 @ ev" "\<exists>ev. c s3 = c s2 @ ev" for s1 s2 s3
      using that by auto
    show "\<exists>ev. c s1 = c s @ ev" if "x \<in> set xs" "f x s = Inr s1" for x s s1
      using that Cons.prems(3) [of x s s1] by simp
  qed
  show ?case
  proof (cases "x = y")
    case True
    from assms(4) s1 True obtain ev1 where "c s1 = c s @ ev1" "e \<in> set ev1" by blast
    with ext show ?thesis by auto
  next
    case False
    with Cons.prems(2) have "y \<in> set xs" by simp
    have "\<exists>ev. c s' = c s1 @ ev \<and> e \<in> set ev"
    proof (rule Cons.IH [OF rest \<open>y \<in> set xs\<close>])
      show "\<exists>ev. c s1 = c s @ ev" if "x \<in> set xs" "f x s = Inr s1" for x s s1
        using that Cons.prems(3) [of x s s1] by simp
    qed
    then obtain ev2 where ev2: "c s' = c s1 @ ev2" "e \<in> set ev2"
      by auto
    from Cons.prems(3) [of x s s1] s1 obtain ev1 where "c s1 = c s @ ev1" by auto
    with ev2 show ?thesis by auto
  qed
qed

subsection \<open>Occupancy\<close>

lemma new_calls_append: "calls s' = calls s @ ev \<Longrightarrow> new_calls s s' = ev"
  by (simp add: new_calls_def)

lemma length_players_who_chose_it:
  "length (players_who_chose_it choices arm) = occupancy choices arm"
proof -
  have "length (filter (\<lambda>i. choices ! i = arm) [0..<length choices])
        = length (filter (\<lambda>c. c = arm) (map (\<lambda>i. choices ! i) [0..<length choices]))"
    by (simp add: filter_map comp_def)
  also have "map (\<lambda>i. choices ! i) [0..<length choices] = choices"
    by (rule map_nth)
  also have "length (filter (\<lambda>c. c = arm) choices) = count_list choices arm"
    by (induction choices) auto
  finally show ?thesis by (simp add: players_who_chose_it_def occupancy_def)
qed

lemma set_players_who_chose_it:
  "set (players_who_chose_it choices arm) = {i. i < length choices \<and> choices ! i = arm}"
  by (auto simp add: players_who_chose_it_def)

lemma distinct_players_who_chose_it: "distinct (players_who_chose_it choices arm)"
  by (simp add: players_who_chose_it_def)

lemma occupancy_own_choice: "i < length choices \<Longrightarrow> 1 \<le> occupancy choices (choices ! i)"
proof -
  assume "i < length choices"
  then have "i \<in> set (players_who_chose_it choices (choices ! i))"
    by (simp add: set_players_who_chose_it)
  then have "0 < length (players_who_chose_it choices (choices ! i))"
    by (cases "players_who_chose_it choices (choices ! i)") auto
  then show ?thesis by (simp add: length_players_who_chose_it)
qed

lemma sum_list_by_arm:
  fixes g :: "nat \<Rightarrow> int"
  assumes "list_all (\<lambda>c. c < N) choices"
  shows "sum_list (map g choices) = (\<Sum>arm<N. int (occupancy choices arm) * g arm)"
  using assms
proof (induction choices)
  case Nil
  show ?case by (simp add: occupancy_def)
next
  case (Cons c choices)
  then have c: "c < N" and IH: "sum_list (map g choices) = (\<Sum>arm<N. int (occupancy choices arm) * g arm)"
    by simp_all
  have "(\<Sum>arm<N. int (occupancy (c # choices) arm) * g arm)
        = (\<Sum>arm<N. int (occupancy choices arm) * g arm + (if arm = c then g arm else 0))"
    by (rule sum.cong) (auto simp add: occupancy_def algebra_simps)
  also have "\<dots> = (\<Sum>arm<N. int (occupancy choices arm) * g arm) + (\<Sum>arm<N. if arm = c then g arm else 0)"
    by (simp add: sum.distrib)
  also have "(\<Sum>arm<N. if arm = c then g arm else 0) = g c"
    using c by simp
  finally show ?case using IH by simp
qed

lemma list_all_update:
  "list_all P xs \<Longrightarrow> P y \<Longrightarrow> list_all P (xs[i := y])"
  by (induction xs arbitrary: i) (auto split: nat.splits)

lemma well_formed_incr_collisions:
  "well_formed w choices s \<Longrightarrow> incr_collisions arm k s = Inr s' \<Longrightarrow> well_formed w choices s'"
  by (auto simp add: incr_collisions_Inr well_formed_def)

lemma well_formed_calls:
  "well_formed w choices (s\<lparr>calls := cs\<rparr>) = well_formed w choices s"
  by (simp add: well_formed_def)

lemma well_formed_draw_and_reward:
  assumes "well_formed w choices s" and "draw_and_reward w i arm s = Inr s'"
  shows "well_formed w choices s'"
proof -
  from assms(2) have i: "i < length (pulls s)"
    and s': "s' = s\<lparr>rewards := (rewards s)[i := draw w arm i],
            calls := calls s @ [GetReward i arm (draw w arm i)],
            pulls := (pulls s)[i := one_more_pull (pulls s ! i) arm]\<rparr>"
    by (simp_all add: draw_and_reward_Inr)
  from assms(1) have rows: "list_all (\<lambda>row. length row = len_arms w) (pulls s)"
    by (simp add: well_formed_def)
  with i have "length (pulls s ! i) = len_arms w" by (simp add: list_all_length)
  then have "length (one_more_pull (pulls s ! i) arm) = len_arms w"
    by (simp add: one_more_pull_def)
  with rows have "list_all (\<lambda>row. length row = len_arms w) ((pulls s)[i := one_more_pull (pulls s ! i) arm])"
    by (rule list_all_update)
  with assms(1) show ?thesis by (simp add: s' well_formed_def)
qed

lemma well_formed_notify_others:
  "well_formed w choices s \<Longrightarrow> notify_others w arm i ps s = Inr s' \<Longrightarrow> well_formed w choices s'"
  by (auto simp add: notify_others_Inr well_formed_calls)

lemma draw_and_reward_total:
  assumes "well_formed w choices s" and "i < len_players w" and "arm < len_arms w"
  shows "\<exists>s'. draw_and_reward w i arm s = Inr s'"
proof -
  from assms have "i < length (pulls s)" "list_all (\<lambda>row. length row = len_arms w) (pulls s)"
    by (simp_all add: well_formed_def)
  then have "length (pulls s ! i) = len_arms w" by (simp add: list_all_length)
  with assms show ?thesis by (simp add: draw_and_reward_Inr well_formed_def)
qed

subsection \<open>onlyUniqUserGetsReward\<close>

lemma onlyUniq_player_Inr:
  "onlyUniq_player w choices i s = Inr s' \<longleftrightarrow>
     i < length choices \<and> choices ! i < len_arms w \<and>
     (if occupancy choices (choices ! i) \<le> 1 then draw_and_reward w i (choices ! i) s = Inr s'
      else choices ! i < length (collisions s) \<and> i < len_players w \<and>
           s' = s\<lparr>collisions := (collisions s)[choices ! i := collisions s ! (choices ! i) + 1],
                  calls := calls s @ [collision_notice w i (choices ! i)]\<rparr>)"
proof (cases "i < length choices \<and> choices ! i < len_arms w")
  case False
  then show ?thesis by (auto simp add: onlyUniq_player_def nbCollisions_def Let_def)
next
  case True
  then have nb: "nbCollisions (len_arms w) choices ! (choices ! i) < 1
      \<longleftrightarrow> occupancy choices (choices ! i) \<le> 1"
    by (auto simp add: nbCollisions_def)
  show ?thesis
  proof (cases "occupancy choices (choices ! i) \<le> 1")
    case le: True
    with True nb show ?thesis
      by (simp add: onlyUniq_player_def Let_def nbCollisions_def)
  next
    case gt: False
    with True nb show ?thesis
      by (simp add: onlyUniq_player_def Let_def and_then_Inr_iff incr_collisions_Inr
          notify_collision_Inr nbCollisions_def)
  qed
qed

lemma well_formed_onlyUniq_player:
  "well_formed w choices s \<Longrightarrow> onlyUniq_player w choices i s = Inr s' \<Longrightarrow> well_formed w choices s'"
  by (auto simp add: onlyUniq_player_Inr well_formed_draw_and_reward split: if_splits)
    (simp add: well_formed_def)

lemma onlyUniq_player_total:
  assumes "well_formed w choices s" and "i < len_players w"
  shows "\<exists>s'. onlyUniq_player w choices i s = Inr s' \<and> well_formed w choices s'"
proof -
  from assms have i: "i < length choices" and c: "choices ! i < len_arms w"
    and col: "choices ! i < length (collisions s)"
    by (simp_all add: well_formed_def list_all_length)
  have "\<exists>s'. onlyUniq_player w choices i s = Inr s'"
  proof (cases "occupancy choices (choices ! i) \<le> 1")
    case True
    with draw_and_reward_total [OF assms c] i c show ?thesis
      by (simp add: onlyUniq_player_Inr)
  next
    case False
    with i c col assms(2) show ?thesis by (simp add: onlyUniq_player_Inr)
  qed
  with assms(1) show ?thesis by (auto intro: well_formed_onlyUniq_player)
qed

lemma onlyUniqUserGetsReward_total:
  assumes "well_formed w choices s"
  shows "\<exists>s'. onlyUniqUserGetsReward w choices s = Inr s' \<and> well_formed w choices s'"
  unfolding onlyUniqUserGetsReward_def
  by (rule for_each_total [where I = "well_formed w choices", OF assms])
    (simp add: onlyUniq_player_total)

lemma onlyUniq_player_view:
  assumes "onlyUniq_player w choices x s = Inr s1"
  shows "(rewards s1 ! i, pulls s1 ! i) =
     (if i = x \<and> occupancy choices (choices ! i) = 1
      then (draw w (choices ! i) i, one_more_pull (pulls s ! i) (choices ! i))
      else (rewards s ! i, pulls s ! i))"
proof -
  from assms have x: "x < length choices" by (simp add: onlyUniq_player_Inr)
  then have occ: "1 \<le> occupancy choices (choices ! x)" by (rule occupancy_own_choice)
  show ?thesis
  proof (cases "occupancy choices (choices ! x) \<le> 1")
    case True
    with occ have one: "occupancy choices (choices ! x) = 1" by simp
    from assms True have "draw_and_reward w x (choices ! x) s = Inr s1"
      by (simp add: onlyUniq_player_Inr)
    then show ?thesis using one by (auto simp add: draw_and_reward_Inr)
  next
    case False
    with assms show ?thesis by (auto simp add: onlyUniq_player_Inr)
  qed
qed

lemma onlyUniqUserGetsReward_view:
  assumes "onlyUniqUserGetsReward w choices s = Inr s'" and "i < len_players w"
  shows "(rewards s' ! i, pulls s' ! i) =
     (if occupancy choices (choices ! i) = 1
      then (draw w (choices ! i) i, one_more_pull (pulls s ! i) (choices ! i))
      else (rewards s ! i, pulls s ! i))"
proof -
  have "(\<lambda>s i. (rewards s ! i, pulls s ! i)) s' i =
     (if i \<in> set [0..<len_players w] \<and> occupancy choices (choices ! i) = 1
      then (\<lambda>(r, row). (draw w (choices ! i) i, one_more_pull row (choices ! i)))
             ((\<lambda>s i. (rewards s ! i, pulls s ! i)) s i)
      else (\<lambda>s i. (rewards s ! i, pulls s ! i)) s i)"
  proof (rule for_each_owned [where f = "onlyUniq_player w choices"])
    show "for_each (onlyUniq_player w choices) [0..<len_players w] s = Inr s'"
      using assms(1) by (simp add: onlyUniqUserGetsReward_def)
    show "distinct [0..<len_players w]" by simp
  next
    fix x s s1
    assume "onlyUniq_player w choices x s = Inr s1"
    from onlyUniq_player_view [OF this, of i]
    show "(rewards s1 ! i, pulls s1 ! i) =
       (if i = x \<and> occupancy choices (choices ! i) = 1
        then (\<lambda>(r, row). (draw w (choices ! i) i, one_more_pull row (choices ! i)))
               (rewards s ! i, pulls s ! i)
        else (rewards s ! i, pulls s ! i))"
      by (cases "i = x") auto
  qed
  with assms(2) show ?thesis by simp
qed

lemma example_well_formed: "well_formed example_world example_choices example_state"
  by (simp add: well_formed_def example_world_def example_choices_def example_state_def)

lemma example_onlyUniq:
  "onlyUniqUserGetsReward example_world example_choices example_state =
     Inr \<lparr>rewards = [0, 0, 7], pulls = [[0, 0], [0, 0], [0, 1]], collisions = [2, 0],
          calls = [GetReward 0 0 0, HandleCollision 1 0, GetReward 2 1 7]\<rparr>"
  by code_simp

lemma onlyUniq_player_calls:
  assumes "onlyUniq_player w choices x s = Inr s1"
  shows "calls s1 = calls s @
     [if occupancy choices (choices ! x) = 1 then GetReward x (choices ! x) (draw w (choices ! x) x)
      else collision_notice w x (choices ! x)]"
proof -
  from assms have x: "x < length choices" by (simp add: onlyUniq_player_Inr)
  then have occ: "1 \<le> occupancy choices (choices ! x)" by (rule occupancy_own_choice)
  show ?thesis
  proof (cases "occupancy choices (choices ! x) \<le> 1")
    case True
    with occ have one: "occupancy choices (choices ! x) = 1" by simp
    from assms True have "draw_and_reward w x (choices ! x) s = Inr s1"
      by (simp add: onlyUniq_player_Inr)
    then show ?thesis using one by (auto simp add: draw_and_reward_Inr)
  next
    case False
    with assms show ?thesis by (auto simp add: onlyUniq_player_Inr)
  qed
qed

lemma onlyUniqUserGetsReward_calls:
  assumes "onlyUniqUserGetsReward w choices s = Inr s'" and "i < len_players w"
  shows "(if occupancy choices (choices ! i) = 1 then GetReward i (choices ! i) (draw w (choices ! i) i)
      else collision_notice w i (choices ! i)) \<in> set (new_calls s s')"
proof -
  let ?e = "\<lambda>x. if occupancy choices (choices ! x) = 1 then GetReward x (choices ! x) (draw w (choices ! x) x)
      else collision_notice w x (choices ! x)"
  have "\<exists>ev. calls s' = calls s @ ev \<and> ?e i \<in> set ev"
  proof (rule for_each_emits [where f = "onlyUniq_player w choices" and y = i])
    show "for_each (onlyUniq_player w choices) [0..<len_players w] s = Inr s'"
      using assms(1) by (simp add: onlyUniqUserGetsReward_def)
    show "i \<in> set [0..<len_players w]" using assms(2) by simp
    show "\<exists>ev. calls s1 = calls s @ ev" if "onlyUniq_player w choices x s = Inr s1" for x s s1
      using onlyUniq_player_calls [OF that] by simp
    show "\<exists>ev. calls s1 = calls s @ ev \<and> ?e i \<in> set ev" if "onlyUniq_player w choices i s = Inr s1" for s s1
      using onlyUniq_player_calls [OF that] by simp
  qed
  then show ?thesis by (auto simp add: new_calls_append)
qed

lemma one_more_pull_nth:
  "arm < length row \<Longrightarrow> one_more_pull row c ! arm = row ! arm + (if arm = c then 1 else 0)"
  by (simp add: one_more_pull_def nth_list_update)

text \<open>
  Claim C3. In a well-formed round resolved by \<open>onlyUniqUserGetsReward\<close>, the pull counts
  of player \<open>i\<close> increase if and only if the player is the only one on its arm; then the
  entry \<open>pulls[i, choices[i]]\<close> increases by exactly 1 and no other entry of its row
  changes, \<open>rewards[i]\<close> is the value drawn from that arm, and \<open>getReward\<close> is called on
  the player with that arm and that value.
\<close>

theorem onlyUniq_sole_occupant:
  assumes "well_formed w choices s" and "i < len_players w"
  shows "\<exists>s'. onlyUniqUserGetsReward w choices s = Inr s' \<and>
           (\<forall>arm < len_arms w. pulls s' ! i ! arm - pulls s ! i ! arm
               = (if occupancy choices (choices ! i) = 1 \<and> arm = choices ! i then 1 else 0)) \<and>
           (occupancy choices (choices ! i) = 1 \<longrightarrow>
              rewards s' ! i = draw w (choices ! i) i \<and>
              GetReward i (choices ! i) (draw w (choices ! i) i) \<in> set (new_calls s s'))"
proof -
  from onlyUniqUserGetsReward_total [OF assms(1)]
  obtain s' where run: "onlyUniqUserGetsReward w choices s = Inr s'" by blast
  note view = onlyUniqUserGetsReward_view [OF run assms(2)]
  note call = onlyUniqUserGetsReward_calls [OF run assms(2)]
  from assms have "i < length (pulls s)" "list_all (\<lambda>row. length row = len_arms w) (pulls s)"
    by (simp_all add: well_formed_def)
  then have row: "length (pulls s ! i) = len_arms w" by (simp add: list_all_length)
  have "\<forall>arm < len_arms w. pulls s' ! i ! arm - pulls s ! i ! arm
               = (if occupancy choices (choices ! i) = 1 \<and> arm = choices ! i then 1 else 0)"
    using view row by (auto simp add: one_more_pull_nth split: if_splits)
  moreover have "occupancy choices (choices ! i) = 1 \<longrightarrow>
              rewards s' ! i = draw w (choices ! i) i \<and>
              GetReward i (choices ! i) (draw w (choices ! i) i) \<in> set (new_calls s s')"
    using view call by (auto split: if_splits)
  ultimately show ?thesis using run by blast
qed

theorem onlyUniq_sole_occupant_witness:
  "well_formed example_world example_choices example_state \<and> 2 < len_players example_world \<and>
   (\<exists>s'. onlyUniqUserGetsReward example_world example_choices example_state = Inr s' \<and>
      pulls s' ! 2 ! 1 - pulls example_state ! 2 ! 1 = 1 \<and>
      pulls s' ! 2 ! 0 - pulls example_state ! 2 ! 0 = 0 \<and>
      rewards s' ! 2 = 7 \<and> GetReward 2 1 7 \<in> set (new_calls example_state s'))"
proof -
  have lt: "2 < len_players example_world" by (simp add: example_world_def)
  have occ: "occupancy example_choices (example_choices ! 2) = 1"
    by (simp add: occupancy_def example_choices_def)
  have c2: "example_choices ! 2 = 1" by (simp add: example_choices_def)
  have dr: "draw example_world (example_choices ! 2) 2 = 7"
    by (simp add: example_world_def example_choices_def)
  have arms: "0 < len_arms example_world" "1 < len_arms example_world"
    by (simp_all add: example_world_def)
  from onlyUniq_sole_occupant [OF example_well_formed lt]
  obtain s' where run: "onlyUniqUserGetsReward example_world example_choices example_state = Inr s'"
    and pl: "\<forall>arm < len_arms example_world.
        pulls s' ! 2 ! arm - pulls example_state ! 2 ! arm
          = (if occupancy example_choices (example_choices ! 2) = 1 \<and> arm = example_choices ! 2
             then 1 else 0)"
    and rw: "occupancy example_choices (example_choices ! 2) = 1 \<longrightarrow>
        rewards s' ! 2 = draw example_world (example_choices ! 2) 2 \<and>
        GetReward 2 (example_choices ! 2) (draw example_world (example_choices ! 2) 2)
          \<in> set (new_calls example_state s')"
    by blast
  from pl [rule_format, OF arms(2)] occ c2
  have p1: "pulls s' ! 2 ! 1 - pulls example_state ! 2 ! 1 = 1" by simp
  from pl [rule_format, OF arms(1)] occ c2
  have p0: "pulls s' ! 2 ! 0 - pulls example_state ! 2 ! 0 = 0" by simp
  from rw occ dr c2
  have r: "rewards s' ! 2 = 7" "GetReward 2 1 7 \<in> set (new_calls example_state s')" by simp_all
  from example_well_formed lt run p1 p0 r show ?thesis by blast
qed

subsection \<open>The resolution of one arm in rewardIsSharedUniformly and closerUserGetsReward\<close>

lemma excess_occupants_occupied:
  "players_who_chose_it choices arm \<noteq> [] \<Longrightarrow>
     excess_occupants choices arm = int (length (players_who_chose_it choices arm)) - 1"
  by (cases "players_who_chose_it choices arm")
    (simp_all add: excess_occupants_def length_players_who_chose_it [symmetric])

lemma excess_occupants_free:
  "players_who_chose_it choices arm = [] \<Longrightarrow> excess_occupants choices arm = 0"
  by (simp add: excess_occupants_def length_players_who_chose_it [symmetric])

lemma resolve_occupied_Inr:
  "resolve_occupied w arm i ps s = Inr s' \<longleftrightarrow>
     arm < len_arms w \<and> i < length (rewards s) \<and> i < len_players w \<and> i < length (pulls s) \<and>
     arm < length (pulls s ! i) \<and> (\<forall>j \<in> set ps. j \<noteq> i \<longrightarrow> j < len_players w) \<and>
     s' = s\<lparr>rewards := (rewards s)[i := draw w arm i],
            calls := calls s @ GetReward i arm (draw w arm i)
                  # map (\<lambda>j. collision_notice w j arm) (filter (\<lambda>j. i \<noteq> j) ps),
            pulls := (pulls s)[i := one_more_pull (pulls s ! i) arm]\<rparr>"
  by (auto simp add: resolve_occupied_def and_then_Inr_iff draw_and_reward_Inr notify_others_Inr)

text \<open>What a step of the loop over the arms does, for the selection \<open>win\<close> of the model.\<close>

lemma resolve_after_incr:
  assumes "players_who_chose_it choices arm \<noteq> []"
  shows "and_then (incr_collisions arm (int (length (players_who_chose_it choices arm)) - 1) s)
           (resolve_occupied w arm i (players_who_chose_it choices arm)) = Inr s' \<longleftrightarrow>
     arm < length (collisions s) \<and> arm < len_arms w \<and> i < length (rewards s) \<and>
     i < len_players w \<and> i < length (pulls s) \<and> arm < length (pulls s ! i) \<and>
     (\<forall>j \<in> set (players_who_chose_it choices arm). j \<noteq> i \<longrightarrow> j < len_players w) \<and>
     s' = arm_outcome w choices arm i s"
  by (auto simp add: and_then_Inr_iff incr_collisions_Inr resolve_occupied_Inr arm_outcome_def
      excess_occupants_occupied [OF assms])

lemma rewardIsSharedUniformly_arm_step:
  "rewardIsSharedUniformly_arm w choices = arm_step w choices (\<lambda>arm. Inr (shared_winner w choices arm))"
  by (intro ext) (simp add: rewardIsSharedUniformly_arm_def arm_step_def and_then_def Let_def)

lemma closerUserGetsReward_arm_step:
  "closerUserGetsReward_arm w distances choices =
     arm_step w choices (\<lambda>arm. closer_winner distances (players_who_chose_it choices arm))"
  by (intro ext) (simp add: closerUserGetsReward_arm_def arm_step_def Let_def)

lemma arm_step_Inr:
  "arm_step w choices win arm s = Inr s' \<longleftrightarrow>
     (if players_who_chose_it choices arm = [] then s' = s
      else \<exists>i. win arm = Inr i \<and>
        arm < length (collisions s) \<and> arm < len_arms w \<and> i < length (rewards s) \<and>
        i < len_players w \<and> i < length (pulls s) \<and> arm < length (pulls s ! i) \<and>
        (\<forall>j \<in> set (players_who_chose_it choices arm). j \<noteq> i \<longrightarrow> j < len_players w) \<and>
        s' = arm_outcome w choices arm i s)"
proof (cases "players_who_chose_it choices arm = []")
  case True
  then show ?thesis by (auto simp add: arm_step_def)
next
  case False
  show ?thesis
  proof (cases "win arm")
    case (Inl e)
    with False show ?thesis
      by (simp add: arm_step_def and_then_Inr_iff Let_def)
  next
    case (Inr i)
    have "arm_step w choices win arm s =
        and_then (incr_collisions arm (int (length (players_who_chose_it choices arm)) - 1) s)
           (resolve_occupied w arm i (players_who_chose_it choices arm))"
      using False Inr by (simp add: arm_step_def Let_def and_then_def)
    with resolve_after_incr [OF False, of s w i s'] False Inr show ?thesis by simp
  qed
qed

lemma arm_step_view:
  assumes step: "arm_step w choices win x s = Inr s1"
    and win: "\<And>i. win x = Inr i \<Longrightarrow> players_who_chose_it choices x \<noteq> [] \<Longrightarrow>
                  i \<in> set (players_who_chose_it choices x)"
    and p: "p < length choices"
  shows "(rewards s1 ! p, pulls s1 ! p) =
     (if choices ! p = x \<and> win (choices ! p) = Inr p
      then (draw w (choices ! p) p, one_more_pull (pulls s ! p) (choices ! p))
      else (rewards s ! p, pulls s ! p))"
proof (cases "players_who_chose_it choices x = []")
  case True
  with p have "choices ! p \<noteq> x"
    using set_players_who_chose_it [of choices x] by auto
  with step True show ?thesis by (simp add: arm_step_Inr)
next
  case False
  with step obtain i where i: "win x = Inr i" "i < length (rewards s)" "i < length (pulls s)"
    and s1: "s1 = arm_outcome w choices x i s"
    by (auto simp add: arm_step_Inr)
  from win [OF i(1) False] have ci: "choices ! i = x" by (simp add: set_players_who_chose_it)
  show ?thesis
  proof (cases "p = i")
    case True
    with i ci show ?thesis by (simp add: s1 arm_outcome_def)
  next
    case False
    with i have "\<not> (choices ! p = x \<and> win (choices ! p) = Inr p)" by auto
    with False show ?thesis by (auto simp add: s1 arm_outcome_def)
  qed
qed

lemma arms_loop_view:
  assumes run: "for_each (arm_step w choices win) [0..<n] s = Inr s'"
    and win: "\<And>x i. win x = Inr i \<Longrightarrow> players_who_chose_it choices x \<noteq> [] \<Longrightarrow>
                  i \<in> set (players_who_chose_it choices x)"
    and p: "p < length choices" "choices ! p < n"
  shows "(rewards s' ! p, pulls s' ! p) =
     (if win (choices ! p) = Inr p
      then (draw w (choices ! p) p, one_more_pull (pulls s ! p) (choices ! p))
      else (rewards s ! p, pulls s ! p))"
proof -
  have "(\<lambda>s p. (rewards s ! p, pulls s ! p)) s' p =
     (if choices ! p \<in> set [0..<n] \<and> win (choices ! p) = Inr p
      then (\<lambda>(r, row). (draw w (choices ! p) p, one_more_pull row (choices ! p)))
             ((\<lambda>s p. (rewards s ! p, pulls s ! p)) s p)
      else (\<lambda>s p. (rewards s ! p, pulls s ! p)) s p)"
  proof (rule for_each_owned [OF run])
    show "distinct [0..<n]" by simp
  next
    fix x s s1
    assume "arm_step w choices win x s = Inr s1"
    from arm_step_view [OF this win p(1)]
    show "(rewards s1 ! p, pulls s1 ! p) =
       (if choices ! p = x \<and> win (choices ! p) = Inr p
        then (\<lambda>(r, row). (draw w (choices ! p) p, one_more_pull row (choices ! p)))
               (rewards s ! p, pulls s ! p)
        else (rewards s ! p, pulls s ! p))"
      by auto
  qed
  with p(2) show ?thesis by simp
qed

lemma sum_list_increment:
  fixes xs :: "int list"
  shows "k < length xs \<Longrightarrow> sum_list (xs[k := xs ! k + d]) = sum_list xs + d"
  by (induction xs arbitrary: k) (auto split: nat.splits)

lemma arm_step_collisions:
  assumes "arm_step w choices win x s = Inr s1"
  shows "sum_list (collisions s1) = sum_list (collisions s) + excess_occupants choices x"
proof (cases "players_who_chose_it choices x = []")
  case True
  with assms show ?thesis by (simp add: arm_step_Inr excess_occupants_free)
next
  case False
  with assms obtain i where "x < length (collisions s)" "s1 = arm_outcome w choices x i s"
    by (auto simp add: arm_step_Inr)
  then show ?thesis by (simp add: arm_outcome_def sum_list_increment)
qed

lemma arms_loop_collisions:
  assumes "for_each (arm_step w choices win) [0..<n] s = Inr s'"
  shows "sum_list (collisions s') - sum_list (collisions s) = (\<Sum>arm<n. excess_occupants choices arm)"
proof -
  have "sum_list (collisions s') = sum_list (collisions s)
          + sum_list (map (excess_occupants choices) [0..<n])"
    by (rule for_each_additive [OF assms]) (rule arm_step_collisions)
  also have "sum_list (map (excess_occupants choices) [0..<n]) = (\<Sum>arm<n. excess_occupants choices arm)"
    by (simp add: interv_sum_list_conv_sum_set_nat lessThan_atLeast0)
  finally show ?thesis by simp
qed

lemma arm_step_calls:
  assumes "arm_step w choices win x s = Inr s1"
  shows "\<exists>ev. calls s1 = calls s @ ev \<and>
           (\<forall>i. win x = Inr i \<and> players_who_chose_it choices x \<noteq> [] \<longrightarrow>
              GetReward i x (draw w x i) \<in> set ev \<and>
              (\<forall>j \<in> set (players_who_chose_it choices x). j \<noteq> i \<longrightarrow> collision_notice w j x \<in> set ev))"
proof (cases "players_who_chose_it choices x = []")
  case True
  with assms show ?thesis by (simp add: arm_step_Inr)
next
  case False
  with assms obtain i where "win x = Inr i" "s1 = arm_outcome w choices x i s"
    by (auto simp add: arm_step_Inr)
  then show ?thesis by (auto simp add: arm_outcome_def)
qed

lemma arms_loop_calls:
  assumes run: "for_each (arm_step w choices win) [0..<n] s = Inr s'"
    and x: "x < n" "win x = Inr i" "players_who_chose_it choices x \<noteq> []"
  shows "GetReward i x (draw w x i) \<in> set (new_calls s s')"
    and "\<forall>j \<in> set (players_who_chose_it choices x). j \<noteq> i \<longrightarrow> collision_notice w j x \<in> set (new_calls s s')"
proof -
  have emitted: "e \<in> set (new_calls s s')"
    if e: "\<And>s s1. arm_step w choices win x s = Inr s1 \<Longrightarrow> \<exists>ev. calls s1 = calls s @ ev \<and> e \<in> set ev" for e
  proof -
    have "\<exists>ev. calls s' = calls s @ ev \<and> e \<in> set ev"
    proof (rule for_each_emits [OF run, where y = x])
      show "x \<in> set [0..<n]" using x(1) by simp
      show "\<exists>ev. calls s1 = calls s @ ev" if "arm_step w choices win y s = Inr s1" for y s s1
        using arm_step_calls [OF that] by blast
      show "\<exists>ev. calls s1 = calls s @ ev \<and> e \<in> set ev" if "arm_step w choices win x s = Inr s1" for s s1
        using e [OF that] .
    qed
    then show ?thesis by (auto simp add: new_calls_append)
  qed
  show "GetReward i x (draw w x i) \<in> set (new_calls s s')"
    by (rule emitted) (use arm_step_calls x in blast)
  show "\<forall>j \<in> set (players_who_chose_it choices x). j \<noteq> i \<longrightarrow> collision_notice w j x \<in> set (new_calls s s')"
  proof (intro ballI impI)
    fix j
    assume "j \<in> set (players_who_chose_it choices x)" "j \<noteq> i"
    then show "collision_notice w j x \<in> set (new_calls s s')"
      by (intro emitted) (use arm_step_calls x in blast)
  qed
qed

subsection \<open>The selected player is an occupant\<close>

lemma shared_winner_occupant:
  "players_who_chose_it choices arm \<noteq> [] \<Longrightarrow>
     shared_winner w choices arm \<in> set (players_who_chose_it choices arm)"
  by (simp add: shared_winner_def np_random_choice_def)

lemma np_min_in_set: "xs \<noteq> [] \<Longrightarrow> np_min xs \<in> set xs"
  by (induction xs rule: np_min.induct) (auto simp add: min_def)

lemma np_min_le: "x \<in> set xs \<Longrightarrow> np_min xs \<le> x"
  by (induction xs rule: np_min.induct) (auto simp add: min_def)

lemma first_index_of_member:
  "v \<in> set xs \<Longrightarrow>
     length (takeWhile (\<lambda>x. x \<noteq> v) xs) < length xs \<and>
     xs ! length (takeWhile (\<lambda>x. x \<noteq> v) xs) = v"
  by (induction xs) auto

lemma np_argmin_less: "xs \<noteq> [] \<Longrightarrow> np_argmin xs < length xs"
  unfolding np_argmin_def
  using np_min_in_set [of xs] by (simp add: first_index_of_member)

lemma np_argmin_nth: "xs \<noteq> [] \<Longrightarrow> xs ! np_argmin xs = np_min xs"
  unfolding np_argmin_def
  using np_min_in_set [of xs] by (simp add: first_index_of_member)

lemma closer_winner_Inr:
  assumes "closer_winner distances ps = Inr i" and "ps \<noteq> []"
  shows "i = ps ! np_argmin (map (\<lambda>p. distances ! p) ps)"
    and "list_all (\<lambda>p. p < length distances) ps"
    and "count_list (map (\<lambda>p. distances ! p) ps) (np_min (map (\<lambda>p. distances ! p) ps)) = 1"
  using assms by (auto simp add: closer_winner_def Let_def split: if_splits)

lemma closer_winner_occupant:
  assumes "closer_winner distances ps = Inr i" and "ps \<noteq> []"
  shows "i \<in> set ps"
proof -
  have "np_argmin (map (\<lambda>p. distances ! p) ps) < length ps"
    using np_argmin_less [of "map (\<lambda>p. distances ! p) ps"] assms(2) by simp
  with closer_winner_Inr(1) [OF assms] show ?thesis by simp
qed

lemma count_list_one_unique:
  assumes "count_list xs v = 1" and "a < length xs" and "b < length xs"
    and "xs ! a = v" and "xs ! b = v"
  shows "a = b"
  using assms
proof (induction xs arbitrary: a b)
  case Nil
  then show ?case by simp
next
  case (Cons x xs)
  show ?case
  proof (cases "x = v")
    case True
    with Cons.prems(1) have "count_list xs v = 0" by simp
    then have nin: "v \<notin> set xs" by (simp add: count_list_0_iff)
    have "a = 0"
    proof (rule ccontr)
      assume "a \<noteq> 0"
      then obtain a' where "a = Suc a'" by (cases a) auto
      with Cons.prems(2,4) have "xs ! a' = v" "a' < length xs" by auto
      with nin show False by auto
    qed
    moreover have "b = 0"
    proof (rule ccontr)
      assume "b \<noteq> 0"
      then obtain b' where "b = Suc b'" by (cases b) auto
      with Cons.prems(3,5) have "xs ! b' = v" "b' < length xs" by auto
      with nin show False by auto
    qed
    ultimately show ?thesis by simp
  next
    case False
    with Cons.prems(4) obtain a' where a: "a = Suc a'" by (cases a) auto
    from False Cons.prems(5) obtain b' where b: "b = Suc b'" by (cases b) auto
    from False Cons.prems(1) have "count_list xs v = 1" by simp
    from Cons.IH [OF this, of a' b'] Cons.prems a b show ?thesis by simp
  qed
qed

text \<open>
  The player that \<open>closerUserGetsReward\<close> selects on an arm is strictly closer than every
  other occupant.
\<close>

lemma closer_winner_minimal:
  assumes win: "closer_winner distances ps = Inr i" and ne: "ps \<noteq> []" and d: "distinct ps"
    and j: "j \<in> set ps" "j \<noteq> i"
  shows "distances ! i < distances ! j"
proof -
  let ?dc = "map (\<lambda>p. distances ! p) ps"
  from ne have ne': "?dc \<noteq> []" by simp
  have k: "np_argmin ?dc < length ps" using np_argmin_less [OF ne'] by simp
  have i: "i = ps ! np_argmin ?dc" by (rule closer_winner_Inr(1) [OF win ne])
  have di: "distances ! i = np_min ?dc"
    using np_argmin_nth [OF ne'] k i by simp
  from j(1) obtain m where m: "m < length ps" "ps ! m = j" by (auto simp add: in_set_conv_nth)
  have le: "np_min ?dc \<le> distances ! j"
    using j(1) by (intro np_min_le) auto
  have "distances ! j \<noteq> np_min ?dc"
  proof
    assume eq: "distances ! j = np_min ?dc"
    have "m = np_argmin ?dc"
    proof (rule count_list_one_unique [OF closer_winner_Inr(3) [OF win ne]])
      show "m < length ?dc" using m by simp
      show "np_argmin ?dc < length ?dc" using k by simp
      show "?dc ! m = np_min ?dc" using m eq by simp
      show "?dc ! np_argmin ?dc = np_min ?dc" by (rule np_argmin_nth [OF ne'])
    qed
    with m i have "j = i" by simp
    with j(2) show False by simp
  qed
  with le di show ?thesis by simp
qed

subsection \<open>The two loops over the arms\<close>

lemma rewardIsSharedUniformly_loop:
  "rewardIsSharedUniformly w choices s =
     for_each (arm_step w choices (\<lambda>arm. Inr (shared_winner w choices arm))) [0..<len_arms w] s"
  by (simp add: rewardIsSharedUniformly_def rewardIsSharedUniformly_arm_step)

lemma closerUserGetsReward_loop:
  "closerUserGetsReward w choices distances s =
     for_each (arm_step w choices
        (\<lambda>arm. closer_winner (resolve_distances w distances) (players_who_chose_it choices arm)))
       [0..<len_arms w] s"
  by (simp add: closerUserGetsReward_def closerUserGetsReward_arm_step)

lemma well_formed_arm_outcome:
  assumes "well_formed w choices s"
  shows "well_formed w choices (arm_outcome w choices arm i s)"
proof -
  from assms have rows: "list_all (\<lambda>row. length row = len_arms w) (pulls s)"
    by (simp add: well_formed_def)
  have "list_all (\<lambda>row. length row = len_arms w) ((pulls s)[i := one_more_pull (pulls s ! i) arm])"
  proof (cases "i < length (pulls s)")
    case True
    with rows have "length (pulls s ! i) = len_arms w" by (simp add: list_all_length)
    then have "length (one_more_pull (pulls s ! i) arm) = len_arms w"
      by (simp add: one_more_pull_def)
    with rows show ?thesis by (rule list_all_update)
  next
    case False
    then have "(pulls s)[i := one_more_pull (pulls s ! i) arm] = pulls s"
      by (simp add: list_update_beyond)
    with rows show ?thesis by simp
  qed
  with assms show ?thesis by (simp add: well_formed_def arm_outcome_def)
qed

lemma arm_step_total:
  assumes wf: "well_formed w choices s" and x: "x < len_arms w"
    and win: "players_who_chose_it choices x \<noteq> [] \<Longrightarrow>
                \<exists>i. win x = Inr i \<and> i \<in> set (players_who_chose_it choices x)"
  shows "\<exists>s1. arm_step w choices win x s = Inr s1 \<and> well_formed w choices s1"
proof (cases "players_who_chose_it choices x = []")
  case True
  with wf show ?thesis by (simp add: arm_step_Inr)
next
  case False
  from win [OF False] obtain i where i: "win x = Inr i" "i \<in> set (players_who_chose_it choices x)"
    by blast
  from i(2) wf have ip: "i < len_players w"
    by (simp add: set_players_who_chose_it well_formed_def)
  from wf ip have "i < length (pulls s)" "list_all (\<lambda>row. length row = len_arms w) (pulls s)"
    by (simp_all add: well_formed_def)
  then have row: "length (pulls s ! i) = len_arms w" by (simp add: list_all_length)
  have others: "\<forall>j \<in> set (players_who_chose_it choices x). j \<noteq> i \<longrightarrow> j < len_players w"
    using wf by (simp add: set_players_who_chose_it well_formed_def)
  have "arm_step w choices win x s = Inr (arm_outcome w choices x i s)"
    using False i(1) ip x row others wf
    by (simp add: arm_step_Inr well_formed_def)
  with well_formed_arm_outcome [OF wf] show ?thesis by simp
qed

lemma rewardIsSharedUniformly_total:
  assumes "well_formed w choices s"
  shows "\<exists>s'. rewardIsSharedUniformly w choices s = Inr s' \<and> well_formed w choices s'"
  unfolding rewardIsSharedUniformly_loop
proof (rule for_each_total [where I = "well_formed w choices", OF assms])
  fix x s
  assume "x \<in> set [0..<len_arms w]" "well_formed w choices s"
  then show "\<exists>s1. arm_step w choices (\<lambda>arm. Inr (shared_winner w choices arm)) x s = Inr s1
                 \<and> well_formed w choices s1"
    by (intro arm_step_total) (simp_all add: shared_winner_occupant)
qed

lemma rewardIsSharedUniformly_view:
  assumes "rewardIsSharedUniformly w choices s = Inr s'"
    and "p < length choices" and "choices ! p < len_arms w"
  shows "(rewards s' ! p, pulls s' ! p) =
     (if shared_winner w choices (choices ! p) = p
      then (draw w (choices ! p) p, one_more_pull (pulls s ! p) (choices ! p))
      else (rewards s ! p, pulls s ! p))"
  using arms_loop_view [OF assms(1) [unfolded rewardIsSharedUniformly_loop] _ assms(2,3)]
  by (simp add: shared_winner_occupant)

lemma closerUserGetsReward_view:
  assumes "closerUserGetsReward w choices distances s = Inr s'"
    and "p < length choices" and "choices ! p < len_arms w"
  shows "(rewards s' ! p, pulls s' ! p) =
     (if closer_winner (resolve_distances w distances) (players_who_chose_it choices (choices ! p)) = Inr p
      then (draw w (choices ! p) p, one_more_pull (pulls s ! p) (choices ! p))
      else (rewards s ! p, pulls s ! p))"
  using arms_loop_view [OF assms(1) [unfolded closerUserGetsReward_loop] _ assms(2,3)]
  by (simp add: closer_winner_occupant)

subsection \<open>The collisions counted by onlyUniqUserGetsReward\<close>

lemma onlyUniq_player_collisions:
  assumes "onlyUniq_player w choices x s = Inr s1"
  shows "sum_list (collisions s1) = sum_list (collisions s)
           + (if 2 \<le> occupancy choices (choices ! x) then 1 else 0)"
proof (cases "occupancy choices (choices ! x) \<le> 1")
  case True
  with assms have "draw_and_reward w x (choices ! x) s = Inr s1"
    by (simp add: onlyUniq_player_Inr)
  with True show ?thesis by (auto simp add: draw_and_reward_Inr)
next
  case False
  with assms show ?thesis by (auto simp add: onlyUniq_player_Inr sum_list_increment)
qed

lemma onlyUniqUserGetsReward_collisions:
  assumes run: "onlyUniqUserGetsReward w choices s = Inr s'" and wf: "well_formed w choices s"
  shows "sum_list (collisions s') - sum_list (collisions s)
           = (\<Sum>arm<len_arms w. if 2 \<le> occupancy choices arm then int (occupancy choices arm) else 0)"
proof -
  let ?g = "\<lambda>c. if 2 \<le> occupancy choices c then 1 else (0::int)"
  from wf have len: "len_players w = length choices"
    and rng: "list_all (\<lambda>c. c < len_arms w) choices"
    by (simp_all add: well_formed_def)
  have "sum_list (collisions s') = sum_list (collisions s)
          + sum_list (map (\<lambda>x. ?g (choices ! x)) [0..<len_players w])"
    by (rule for_each_additive [OF run [unfolded onlyUniqUserGetsReward_def]])
      (rule onlyUniq_player_collisions)
  also have "map (\<lambda>x. ?g (choices ! x)) [0..<len_players w] = map ?g (map (\<lambda>x. choices ! x) [0..<length choices])"
    by (simp add: len)
  also have "map (\<lambda>x. choices ! x) [0..<length choices] = choices" by (rule map_nth)
  also have "sum_list (map ?g choices) = (\<Sum>arm<len_arms w. int (occupancy choices arm) * ?g arm)"
    by (rule sum_list_by_arm [OF rng])
  also have "\<dots> = (\<Sum>arm<len_arms w. if 2 \<le> occupancy choices arm then int (occupancy choices arm) else 0)"
    by (rule sum.cong) auto
  finally show ?thesis by simp
qed

subsection \<open>The example round\<close>

lemma example_rewardIsSharedUniformly:
  "rewardIsSharedUniformly example_world example_choices example_state =
     Inr \<lparr>rewards = [5, 0, 7], pulls = [[1, 0], [0, 0], [0, 1]], collisions = [1, 0],
          calls = [GetReward 0 0 5, HandleCollision 1 0, GetReward 2 1 7]\<rparr>"
  by code_simp

lemma example_closerUserGetsReward:
  "closerUserGetsReward example_world example_choices Dist_None example_state =
     Inr \<lparr>rewards = [5, 0, 7], pulls = [[1, 0], [0, 0], [0, 1]], collisions = [1, 0],
          calls = [GetReward 0 0 5, HandleCollision 1 0, GetReward 2 1 7]\<rparr>"
  by code_simp

lemma example_sums:
  "(\<Sum>arm<len_arms example_world. excess_occupants example_choices arm) = 1"
  "(\<Sum>arm<len_arms example_world.
      if 2 \<le> occupancy example_choices arm then int (occupancy example_choices arm) else 0) = 2"
  by code_simp+

subsection \<open>The total of the collision counters\<close>

text \<open>
  Claim C1 says that under every policy but \<open>noCollision\<close> the counters of a round
  increase in total by the sum over the arms of \<open>max(occupancy(arm) - 1, 0)\<close>. In the
  example round, players 0 and 1 are both on arm 0: the sum of the excess occupants is 1,
  and \<open>onlyUniqUserGetsReward\<close> adds 2 to \<open>collisions[0]\<close>, one for each colliding player.
\<close>

theorem onlyUniq_counts_every_colliding_player:
  "onlyUniqUserGetsReward example_world example_choices example_state =
     Inr \<lparr>rewards = [0, 0, 7], pulls = [[0, 0], [0, 0], [0, 1]], collisions = [2, 0],
          calls = [GetReward 0 0 0, HandleCollision 1 0, GetReward 2 1 7]\<rparr>
   \<and> sum_list [2, 0 :: int] - sum_list (collisions example_state) = 2
   \<and> max (int (occupancy example_choices 0) - 1) 0 + max (int (occupancy example_choices 1) - 1) 0 = 1"
  by code_simp

text \<open>
  Claim C1, amended. In a well-formed round, \<open>onlyUniqUserGetsReward\<close> returns and the
  counters increase in total by the sum, over the arms with two occupants or more, of
  the occupancy of the arm (every colliding player is counted); \<open>rewardIsSharedUniformly\<close>
  returns and the counters increase in total by the sum over the arms of
  \<open>max(occupancy(arm) - 1, 0)\<close>; and so do they in every round that \<open>closerUserGetsReward\<close>
  resolves.
\<close>

theorem collisions_total_increase:
  assumes "well_formed w choices s"
  shows "(\<exists>s'. onlyUniqUserGetsReward w choices s = Inr s' \<and>
            sum_list (collisions s') - sum_list (collisions s)
              = (\<Sum>arm<len_arms w. if 2 \<le> occupancy choices arm then int (occupancy choices arm) else 0))
       \<and> (\<exists>s'. rewardIsSharedUniformly w choices s = Inr s' \<and>
            sum_list (collisions s') - sum_list (collisions s)
              = (\<Sum>arm<len_arms w. excess_occupants choices arm))
       \<and> (\<forall>s'. closerUserGetsReward w choices distances s = Inr s' \<longrightarrow>
            sum_list (collisions s') - sum_list (collisions s)
              = (\<Sum>arm<len_arms w. excess_occupants choices arm))"
proof (intro conjI allI impI)
  from onlyUniqUserGetsReward_total [OF assms]
  obtain s' where run: "onlyUniqUserGetsReward w choices s = Inr s'" by blast
  from run onlyUniqUserGetsReward_collisions [OF run assms]
  show "\<exists>s'. onlyUniqUserGetsReward w choices s = Inr s' \<and>
            sum_list (collisions s') - sum_list (collisions s)
              = (\<Sum>arm<len_arms w. if 2 \<le> occupancy choices arm then int (occupancy choices arm) else 0)"
    by blast
next
  from rewardIsSharedUniformly_total [OF assms]
  obtain s' where run: "rewardIsSharedUniformly w choices s = Inr s'" by blast
  from run arms_loop_collisions [OF run [unfolded rewardIsSharedUniformly_loop]]
  show "\<exists>s'. rewardIsSharedUniformly w choices s = Inr s' \<and>
            sum_list (collisions s') - sum_list (collisions s)
              = (\<Sum>arm<len_arms w. excess_occupants choices arm)"
    by blast
next
  fix s'
  assume "closerUserGetsReward w choices distances s = Inr s'"
  then show "sum_list (collisions s') - sum_list (collisions s)
              = (\<Sum>arm<len_arms w. excess_occupants choices arm)"
    unfolding closerUserGetsReward_loop by (rule arms_loop_collisions)
qed

theorem collisions_total_increase_witness:
  "well_formed example_world example_choices example_state
   \<and> (\<exists>s'. onlyUniqUserGetsReward example_world example_choices example_state = Inr s' \<and>
          sum_list (collisions s') - sum_list (collisions example_state) = 2)
   \<and> (\<exists>s'. rewardIsSharedUniformly example_world example_choices example_state = Inr s' \<and>
          sum_list (collisions s') - sum_list (collisions example_state) = 1)
   \<and> (\<exists>s'. closerUserGetsReward example_world example_choices Dist_None example_state = Inr s' \<and>
          sum_list (collisions s') - sum_list (collisions example_state) = 1)"
proof -
  note inst = collisions_total_increase [OF example_well_formed, of Dist_None, unfolded example_sums]
  from inst have a: "\<exists>s'. onlyUniqUserGetsReward example_world example_choices example_state = Inr s' \<and>
          sum_list (collisions s') - sum_list (collisions example_state) = 2"
    by blast
  from inst have b: "\<exists>s'. rewardIsSharedUniformly example_world example_choices example_state = Inr s' \<and>
          sum_list (collisions s') - sum_list (collisions example_state) = 1"
    by blast
  from inst example_closerUserGetsReward
  have c: "\<exists>s'. closerUserGetsReward example_world example_choices Dist_None example_state = Inr s' \<and>
          sum_list (collisions s') - sum_list (collisions example_state) = 1"
    by blast
  from example_well_formed a b c show ?thesis by blast
qed

subsection \<open>The players that do not pull\<close>

text \<open>
  Claim C10. In a well-formed round resolved by \<open>onlyUniqUserGetsReward\<close>,
  \<open>rewardIsSharedUniformly\<close> or \<open>closerUserGetsReward\<close>, a player that is not the one the
  policy lets pull its arm (it is not alone on it, respectively it is not the player
  selected for it) keeps its entry of \<open>rewards\<close> and its whole row of \<open>pulls\<close>: the
  reward 0 of the callback \<open>getReward(arm, 0)\<close> is not written to \<open>rewards\<close>.
\<close>

theorem losers_keep_rewards_and_pulls:
  assumes "well_formed w choices s" and "i < len_players w"
  shows "(\<forall>s'. onlyUniqUserGetsReward w choices s = Inr s' \<and> occupancy choices (choices ! i) \<noteq> 1 \<longrightarrow>
            rewards s' ! i = rewards s ! i \<and> pulls s' ! i = pulls s ! i)
       \<and> (\<forall>s'. rewardIsSharedUniformly w choices s = Inr s' \<and>
               shared_winner w choices (choices ! i) \<noteq> i \<longrightarrow>
            rewards s' ! i = rewards s ! i \<and> pulls s' ! i = pulls s ! i)
       \<and> (\<forall>s'. closerUserGetsReward w choices distances s = Inr s' \<and>
               closer_winner (resolve_distances w distances)
                 (players_who_chose_it choices (choices ! i)) \<noteq> Inr i \<longrightarrow>
            rewards s' ! i = rewards s ! i \<and> pulls s' ! i = pulls s ! i)"
proof -
  from assms have i: "i < length choices" and c: "choices ! i < len_arms w"
    by (simp_all add: well_formed_def list_all_length)
  show ?thesis
    using onlyUniqUserGetsReward_view [OF _ assms(2), of choices s]
      rewardIsSharedUniformly_view [OF _ i c, of s]
      closerUserGetsReward_view [OF _ i c, of distances s]
    by auto
qed

theorem losers_keep_rewards_and_pulls_witness:
  "well_formed example_world example_choices example_state \<and> 1 < len_players example_world
   \<and> (\<exists>s'. onlyUniqUserGetsReward example_world example_choices example_state = Inr s' \<and>
          rewards s' ! 1 = rewards example_state ! 1 \<and> pulls s' ! 1 = pulls example_state ! 1)
   \<and> (\<exists>s'. rewardIsSharedUniformly example_world example_choices example_state = Inr s' \<and>
          rewards s' ! 1 = rewards example_state ! 1 \<and> pulls s' ! 1 = pulls example_state ! 1)
   \<and> (\<exists>s'. closerUserGetsReward example_world example_choices Dist_None example_state = Inr s' \<and>
          rewards s' ! 1 = rewards example_state ! 1 \<and> pulls s' ! 1 = pulls example_state ! 1)"
proof -
  have lt: "1 < len_players example_world" by (simp add: example_world_def)
  have occ: "occupancy example_choices (example_choices ! 1) \<noteq> 1"
    by (simp add: example_choices_def occupancy_def)
  have sw: "shared_winner example_world example_choices (example_choices ! 1) \<noteq> 1"
    by code_simp
  have cw: "closer_winner (resolve_distances example_world Dist_None)
       (players_who_chose_it example_choices (example_choices ! 1)) \<noteq> Inr 1"
    by code_simp
  note inst = losers_keep_rewards_and_pulls [OF example_well_formed lt, of Dist_None]
  from inst example_onlyUniq occ
  have a: "\<exists>s'. onlyUniqUserGetsReward example_world example_choices example_state = Inr s' \<and>
          rewards s' ! 1 = rewards example_state ! 1 \<and> pulls s' ! 1 = pulls example_state ! 1"
    by blast
  from inst example_rewardIsSharedUniformly sw
  have b: "\<exists>s'. rewardIsSharedUniformly example_world example_choices example_state = Inr s' \<and>
          rewards s' ! 1 = rewards example_state ! 1 \<and> pulls s' ! 1 = pulls example_state ! 1"
    by blast
  from inst example_closerUserGetsReward cw
  have c: "\<exists>s'. closerUserGetsReward example_world example_choices Dist_None example_state = Inr s' \<and>
          rewards s' ! 1 = rewards example_state ! 1 \<and> pulls s' ! 1 = pulls example_state ! 1"
    by blast
  from example_well_formed lt a b c show ?thesis by blast
qed

subsection \<open>closerUserGetsReward\<close>

lemma count_list_distinct: "distinct xs \<Longrightarrow> x \<in> set xs \<Longrightarrow> count_list xs x = 1"
  by (induction xs) (auto simp add: count_list_0_iff)

text \<open>
  When no two players on the same arm are at the same distance, the selection succeeds
  on every occupied arm.
\<close>

lemma closer_winner_total:
  assumes ne: "players_who_chose_it choices arm \<noteq> []"
    and len: "length choices \<le> length distances"
    and apart: "\<And>i j. i < length choices \<Longrightarrow> j < length choices \<Longrightarrow> i \<noteq> j \<Longrightarrow>
                  choices ! i = choices ! j \<Longrightarrow> distances ! i \<noteq> distances ! j"
  shows "\<exists>i. closer_winner distances (players_who_chose_it choices arm) = Inr i
            \<and> i \<in> set (players_who_chose_it choices arm)"
proof -
  let ?ps = "players_who_chose_it choices arm"
  let ?dc = "map (\<lambda>p. distances ! p) ?ps"
  have bound: "list_all (\<lambda>p. p < length distances) ?ps"
    using len by (auto simp add: list_all_iff set_players_who_chose_it)
  have "inj_on (\<lambda>p. distances ! p) (set ?ps)"
  proof (rule inj_onI)
    fix i j
    assume "i \<in> set ?ps" "j \<in> set ?ps" "distances ! i = distances ! j"
    then show "i = j"
      using apart [of i j] by (auto simp add: set_players_who_chose_it)
  qed
  then have "distinct ?dc"
    by (simp add: distinct_map distinct_players_who_chose_it)
  moreover have "np_min ?dc \<in> set ?dc" using ne by (intro np_min_in_set) simp
  ultimately have "count_list ?dc (np_min ?dc) = 1" by (rule count_list_distinct)
  with bound have "closer_winner distances ?ps = Inr (?ps ! np_argmin ?dc)"
    by (simp add: closer_winner_def Let_def)
  with closer_winner_occupant [OF _ ne] show ?thesis by blast
qed

lemma closerUserGetsReward_total:
  assumes wf: "well_formed w choices s"
    and len: "len_players w \<le> length (resolve_distances w distances)"
    and apart: "\<And>i j. i < len_players w \<Longrightarrow> j < len_players w \<Longrightarrow> i \<noteq> j \<Longrightarrow>
                  choices ! i = choices ! j \<Longrightarrow>
                  resolve_distances w distances ! i \<noteq> resolve_distances w distances ! j"
  shows "\<exists>s'. closerUserGetsReward w choices distances s = Inr s' \<and> well_formed w choices s'"
  unfolding closerUserGetsReward_loop
proof (rule for_each_total [where I = "well_formed w choices", OF wf])
  fix x s
  assume x: "x \<in> set [0..<len_arms w]" and wfs: "well_formed w choices s"
  from wf have n: "length choices = len_players w" by (simp add: well_formed_def)
  show "\<exists>s1. arm_step w choices
           (\<lambda>arm. closer_winner (resolve_distances w distances) (players_who_chose_it choices arm)) x s
         = Inr s1 \<and> well_formed w choices s1"
  proof (rule arm_step_total [OF wfs])
    show "x < len_arms w" using x by simp
    show "\<exists>i. closer_winner (resolve_distances w distances) (players_who_chose_it choices x) = Inr i
            \<and> i \<in> set (players_who_chose_it choices x)"
      if "players_who_chose_it choices x \<noteq> []"
      using that len apart by (intro closer_winner_total) (simp_all add: n)
  qed
qed

text \<open>
  When no two players on the same arm are at the same distance, a well-formed round is
  resolved, and on every occupied arm exactly one occupant pulls: it is strictly closer
  than every other occupant, its reward is the value drawn from the arm, and the other
  occupants keep their pulls and are notified of the collision.
\<close>

lemma closerUserGetsReward_without_tie:
  assumes wf: "well_formed w choices s"
    and len: "len_players w \<le> length (resolve_distances w distances)"
    and apart: "\<And>i j. i < len_players w \<Longrightarrow> j < len_players w \<Longrightarrow> i \<noteq> j \<Longrightarrow>
                  choices ! i = choices ! j \<Longrightarrow>
                  resolve_distances w distances ! i \<noteq> resolve_distances w distances ! j"
    and arm: "arm < len_arms w" "players_who_chose_it choices arm \<noteq> []"
  shows "\<exists>s' i. closerUserGetsReward w choices distances s = Inr s' \<and>
           i \<in> set (players_who_chose_it choices arm) \<and>
           pulls s' ! i = one_more_pull (pulls s ! i) arm \<and>
           rewards s' ! i = draw w arm i \<and>
           GetReward i arm (draw w arm i) \<in> set (new_calls s s') \<and>
           (\<forall>j \<in> set (players_who_chose_it choices arm). j \<noteq> i \<longrightarrow>
              resolve_distances w distances ! i < resolve_distances w distances ! j \<and>
              pulls s' ! j = pulls s ! j \<and> rewards s' ! j = rewards s ! j \<and>
              collision_notice w j arm \<in> set (new_calls s s'))"
proof -
  let ?d = "resolve_distances w distances"
  let ?ps = "players_who_chose_it choices arm"
  from wf have n: "length choices = len_players w"
    and rng: "list_all (\<lambda>c. c < len_arms w) choices"
    by (simp_all add: well_formed_def)
  from closerUserGetsReward_total [OF wf len apart]
  obtain s' where run: "closerUserGetsReward w choices distances s = Inr s'" by blast
  from closer_winner_total [OF arm(2), of ?d] len apart n
  obtain i where i: "closer_winner ?d ?ps = Inr i" "i \<in> set ?ps" by auto
  from i(2) have il: "i < length choices" and ic: "choices ! i = arm"
    by (simp_all add: set_players_who_chose_it)
  note loop = run [unfolded closerUserGetsReward_loop]
  from closerUserGetsReward_view [OF run il] ic arm(1) i(1)
  have vi: "pulls s' ! i = one_more_pull (pulls s ! i) arm" "rewards s' ! i = draw w arm i"
    by simp_all
  have ci: "GetReward i arm (draw w arm i) \<in> set (new_calls s s')"
    by (rule arms_loop_calls(1) [OF loop arm(1) i(1) arm(2)])
  have others: "resolve_distances w distances ! i < resolve_distances w distances ! j \<and>
              pulls s' ! j = pulls s ! j \<and> rewards s' ! j = rewards s ! j \<and>
              collision_notice w j arm \<in> set (new_calls s s')"
    if j: "j \<in> set ?ps" "j \<noteq> i" for j
  proof -
    from j(1) have jl: "j < length choices" and jc: "choices ! j = arm"
      by (simp_all add: set_players_who_chose_it)
    have "?d ! i < ?d ! j"
      by (rule closer_winner_minimal [OF i(1) arm(2) distinct_players_who_chose_it j])
    moreover from closerUserGetsReward_view [OF run jl] jc arm(1) i(1) j(2)
    have "pulls s' ! j = pulls s ! j" "rewards s' ! j = rewards s ! j" by simp_all
    moreover from arms_loop_calls(2) [OF loop arm(1) i(1) arm(2)] j
    have "collision_notice w j arm \<in> set (new_calls s s')" by blast
    ultimately show ?thesis by simp
  qed
  from run i(2) vi ci others show ?thesis by blast
qed

text \<open>
  Claim C9 says that in a round resolved by \<open>closerUserGetsReward\<close> every occupied arm
  lets exactly one occupant pull, and the spec adds that a tie at the minimal distance
  is broken by a random choice among the tied occupants. In the example round with the
  distances \<open>[0.5, 0.5, 0.5]\<close>, players 0 and 1 are tied on arm 0: the source passes the
  two-dimensional result of \<open>np.argwhere\<close> to \<open>np.random.choice\<close>, which raises
  \<open>ValueError\<close>, and no occupant of arm 0 pulls.
\<close>

theorem closerUserGetsReward_tie_raises:
  "closer_winner [1 / 2, 1 / 2, 1 / 2] (players_who_chose_it example_choices 0) = Inl ValueError
   \<and> closerUserGetsReward example_world example_choices (Dist_array [1 / 2, 1 / 2, 1 / 2]) example_state
       = Inl ValueError"
  by code_simp

section \<open>The values of the thresholds\<close>

subsection \<open>In exact arithmetic\<close>

text \<open>
  In exact arithmetic, \<open>compute_c__GLR\<close> is \<open>+inf\<close> at \<open>t = t0\<close> (the guard turns the
  raw \<open>-inf\<close> into \<open>+inf\<close>) and finite and positive elsewhere, and \<open>compute_h__CUSUM\<close>
  is finite and non-negative for \<open>0 < epsilon < 1\<close>.
\<close>

lemma compute_c__GLR_at_t0: "compute_c__GLR t0 t0 horizon = PInf"
  by (simp add: compute_c__GLR_def Let_def signed_inf_def fl_isinf_def)

lemma compute_c__GLR_after_t0:
  assumes "t \<noteq> t0"
  shows "\<exists>c. compute_c__GLR t0 t horizon = Fin c \<and> 0 < c"
proof -
  define d where "d = real_of_int \<bar>t - t0\<bar>"
  define T where "T = real_of_int (max 1 horizon)"
  from assms have d: "1 \<le> d" by (simp add: d_def)
  have T: "1 \<le> T" by (simp add: T_def)
  have "1 \<le> sqrt (d + 2)" using d by simp
  with d have "1 * 1 \<le> d * sqrt (d + 2)" by (intro mult_mono) simp_all
  with T have "1 * 1 \<le> (d * sqrt (d + 2)) * T" by (intro mult_mono) simp_all
  then have arg: "1 < 2 * d * sqrt (d + 2) / (1 / T)" by simp
  then have ln: "0 < ln (2 * d * sqrt (d + 2) / (1 / T))" by (rule ln_gt_zero)
  have fac: "0 < (1 + 1 / (d + 1)) * 2" using d by (simp add: add_pos_pos)
  have T0: "1 / T \<noteq> 0" using T by simp
  have d2: "0 \<le> d + 2" using d by simp
  from arg have pos: "0 < 2 * d * sqrt (d + 2) / (1 / T)" by linarith
  have "compute_c__GLR t0 t horizon = Fin ((1 + 1 / (d + 1)) * 2 * ln (2 * d * sqrt (d + 2) / (1 / T)))"
    unfolding compute_c__GLR_def Let_def d_def [symmetric] T_def [symmetric]
    using T0 d2 pos ln fac
    apply (simp only: of_int_mult of_int_add of_int_numeral d_def [symmetric])
    apply (simp add: fl_isinf_def)
    done
  with ln fac show ?thesis by simp
qed

lemma np_log_ge_one: "1 \<le> x \<Longrightarrow> \<exists>y. np_log (Fin x) = Fin y \<and> 0 \<le> y"
  by simp

lemma comb_nonneg: "0 \<le> comb N k"
  by (simp add: comb_def)

lemma compute_h__CUSUM_exact:
  assumes eps: "0 < epsilon" "epsilon < 1"
    and ups: "max 1 max_nb_random_events \<le> max 1 horizon"
  shows "\<exists>h. compute_h__CUSUM horizon verbose M max_nb_random_events nbArms epsilon lmbda = Inr (Fin h)
            \<and> 0 \<le> h"
proof -
  let ?minus = "((4 * epsilon) / (1 - epsilon) ^ 2) * comb M \<lfloor>2 * epsilon * real M\<rfloor> * (2 * epsilon) ^ M + 1"
  let ?plus = "((4 * epsilon) / (1 + epsilon) ^ 2) * comb M \<lceil>2 * epsilon * real M\<rceil> * (2 * epsilon) ^ M + 1"
  let ?r = "real (max 1 horizon) / real (max 1 max_nb_random_events)"
  from eps have nz: "(1 - epsilon) ^ 2 \<noteq> 0" "(1 + epsilon) ^ 2 \<noteq> 0" by simp_all
  have "0 \<le> ((4 * epsilon) / (1 - epsilon) ^ 2) * comb M \<lfloor>2 * epsilon * real M\<rfloor> * (2 * epsilon) ^ M"
    using eps by (intro mult_nonneg_nonneg divide_nonneg_nonneg comb_nonneg) simp_all
  then have "1 \<le> ?minus" by simp
  from np_log_ge_one [OF this] obtain a where a: "np_log (Fin ?minus) = Fin a" "0 \<le> a" by blast
  have "0 \<le> ((4 * epsilon) / (1 + epsilon) ^ 2) * comb M \<lceil>2 * epsilon * real M\<rceil> * (2 * epsilon) ^ M"
    using eps by (intro mult_nonneg_nonneg divide_nonneg_nonneg comb_nonneg) simp_all
  then have "1 \<le> ?plus" by simp
  from np_log_ge_one [OF this] obtain b where b: "np_log (Fin ?plus) = Fin b" "0 \<le> b" by blast
  define c where "c = (if min a b = 0 then 1 else min a b)"
  have c: "0 < c" using a(2) b(2) by (auto simp add: c_def min_def)
  have C1: "(if fl_eq (py_min (Fin a) (Fin b)) (Fin 0) then Fin 1 else py_min (Fin a) (Fin b)) = Fin c"
    by (auto simp add: py_min_def fl_eq_def c_def min_def)
  have "1 \<le> ?r" using ups by (simp add: le_divide_eq)
  from np_log_ge_one [OF this] obtain l where l: "np_log (Fin ?r) = Fin l" "0 \<le> l" by blast
  have "compute_h__CUSUM horizon verbose M max_nb_random_events nbArms epsilon lmbda
          = Inr (Fin (1 / c * l))"
    unfolding compute_h__CUSUM_def Let_def a(1) b(1) C1 l(1) using nz c by simp
  moreover have "0 \<le> 1 / c * l" using c l(2) by simp
  ultimately show ?thesis by blast
qed

subsection \<open>Within the range of binary64\<close>

text \<open>
  The central binomial coefficient is at least \<open>4 ^ n / (2 * n)\<close>; \<open>comb(1100, 550)\<close>
  is beyond the range of binary64.
\<close>

lemma central_binomial_step:
  "Suc n * (2 * Suc n choose Suc n) = 2 * (2 * n + 1) * (2 * n choose n)"
proof -
  have a: "Suc n * (Suc (2 * n + 1) choose Suc n) = Suc (2 * n + 1) * (2 * n + 1 choose n)"
    by (rule Suc_times_binomial)
  have b: "2 * n + 1 choose n = 2 * n + 1 choose Suc n"
    using binomial_symmetric [of n "2 * n + 1"] by simp
  have c: "Suc n * (Suc (2 * n) choose Suc n) = Suc (2 * n) * (2 * n choose n)"
    by (rule Suc_times_binomial)
  have d: "2 * Suc n = Suc (2 * n + 1)" "Suc (2 * n) = 2 * n + 1" by simp_all
  have "Suc n * (Suc n * (2 * Suc n choose Suc n)) = Suc n * (Suc (2 * n + 1) * (2 * n + 1 choose n))"
    unfolding d(1) a ..
  also have "\<dots> = Suc (2 * n + 1) * (Suc n * (2 * n + 1 choose Suc n))"
    unfolding b [symmetric] by (simp only: mult.left_commute)
  also have "\<dots> = Suc (2 * n + 1) * ((2 * n + 1) * (2 * n choose n))"
    using c unfolding d(2) by (simp only:)
  also have "\<dots> = Suc n * (2 * (2 * n + 1) * (2 * n choose n))"
    by (simp only: d(1) [symmetric] mult.assoc mult.left_commute [of "Suc n"])
  finally show ?thesis by (simp only: mult_cancel1) simp
qed


lemma central_binomial_lower_bound:
  "0 < n \<Longrightarrow> 4 ^ n \<le> 2 * n * (2 * n choose n)"
proof (induction n)
  case 0
  then show ?case by simp
next
  case (Suc n)
  show ?case
  proof (cases "n = 0")
    case True
    then show ?thesis by simp
  next
    case False
    with Suc.IH have IH: "4 ^ n \<le> 2 * n * (2 * n choose n)" by simp
    have "4 ^ Suc n = 4 * 4 ^ n" by simp
    also have "\<dots> \<le> 4 * (2 * n * (2 * n choose n))" using IH by simp
    also have "\<dots> \<le> 4 * ((2 * n + 1) * (2 * n choose n))" by simp
    also have "\<dots> = 2 * (2 * (2 * n + 1) * (2 * n choose n))" by simp
    also have "\<dots> = 2 * (Suc n * (2 * Suc n choose Suc n))"
      by (simp only: central_binomial_step)
    finally show ?thesis by (simp only: mult.assoc)
  qed
qed

lemma central_binomial_power_of_two:
  assumes "0 < n" and "2 * real n \<le> 2 ^ k" and "k \<le> 2 * n"
  shows "(2::real) ^ (2 * n - k) \<le> real (2 * n choose n)"
proof -
  have "real (4 ^ n) \<le> real (2 * n * (2 * n choose n))"
    using central_binomial_lower_bound [OF assms(1)] by (simp only: of_nat_le_iff)
  then have le: "(4::real) ^ n \<le> 2 * real n * real (2 * n choose n)" by simp
  have "(4::real) ^ n = (2 ^ 2) ^ n" by simp
  also have "\<dots> = 2 ^ (2 * n)" by (simp only: power_mult)
  also have "\<dots> = 2 ^ (2 * n - k) * 2 ^ k"
    using assms(3) by (simp only: power_add [symmetric]) simp
  finally have "2 ^ (2 * n - k) * (2::real) ^ k \<le> 2 * real n * real (2 * n choose n)"
    using le by simp
  also have "\<dots> \<le> 2 ^ k * real (2 * n choose n)"
    using assms(2) by (intro mult_right_mono) simp_all
  finally have "2 ^ (2 * n - k) * (2::real) ^ k \<le> real (2 * n choose n) * 2 ^ k"
    by (simp only: mult.commute)
  then show ?thesis by (simp only: mult_le_cancel_right) simp
qed


lemma comb_1100_550_out_of_range: "2 ^ 1024 \<le> comb 1100 550"
proof -
  have "(2::real) ^ (2 * 550 - 11) \<le> real (2 * 550 choose 550)"
    by (rule central_binomial_power_of_two) simp_all
  moreover have "2 * 550 - 11 = (1089::nat)" "2 * 550 = (1100::nat)" by simp_all
  ultimately have "(2::real) ^ 1089 \<le> real (1100 choose 550)" by (simp only:)
  moreover have "(2::real) ^ 1024 \<le> 2 ^ 1089" by (rule power_increasing) simp_all
  moreover have "comb 1100 550 = real (1100 choose 550)" by (simp add: comb_def)
  ultimately show ?thesis by (simp only:) 
qed


lemma np_float64_moderate:
  assumes "1 / 2 ^ 10 \<le> \<bar>x\<bar>" and "\<bar>x\<bar> \<le> 2 ^ 10"
  shows "np_float64 x = Fin x"
proof -
  have "(2::real) ^ 10 < 2 ^ 1024" by (rule power_strict_increasing) simp_all
  with assms(2) have big: "\<not> 2 ^ 1024 \<le> \<bar>x\<bar>" by linarith
  have "(2::real) ^ 10 < 2 ^ 1075" by (rule power_strict_increasing) simp_all
  then have "1 < (1 / 2 ^ 10) * (2::real) ^ 1075" by (simp add: field_simps)
  also have "\<dots> \<le> \<bar>x\<bar> * 2 ^ 1075" using assms(1) by (intro mult_right_mono) simp_all
  finally have small: "\<not> \<bar>x\<bar> * 2 ^ 1075 \<le> 1" by simp
  from big small show ?thesis by (simp only: np_float64_def if_False)
qed

lemma half_power_1100_underflows: "py_pow (2 * (1 / 4)) 1100 = Inr (Fin 0)"
proof -
  let ?p = "(1 / 2 :: real) ^ 1100"
  have nonneg: "0 \<le> ?p" by simp
  have le1: "?p \<le> 1" by (rule power_le_one) simp_all
  have "(1::real) < 2 ^ 1024" by (rule one_less_power) simp_all
  with le1 nonneg have big: "\<not> 2 ^ 1024 \<le> \<bar>?p\<bar>" by simp
  have "?p = (1 / 2) ^ 25 * (1 / 2) ^ 1075" by (simp only: power_add [symmetric]) simp
  then have "?p * 2 ^ 1075 = (1 / 2) ^ 25 * ((1 / 2) ^ 1075 * 2 ^ 1075)" by (simp only: mult.assoc)
  also have "(1 / 2 :: real) ^ 1075 * 2 ^ 1075 = (1 / 2 * 2) ^ 1075" by (simp only: power_mult_distrib)
  also have "\<dots> = 1" by simp
  finally have "?p * 2 ^ 1075 = (1 / 2) ^ 25" by simp
  moreover have "(1 / 2 :: real) ^ 25 \<le> 1" by (rule power_le_one) simp_all
  ultimately have "?p * 2 ^ 1075 \<le> 1" by (simp only:)
  with nonneg have small: "\<bar>?p\<bar> * 2 ^ 1075 \<le> 1" by simp
  have base: "2 * (1 / 4) = (1 / 2 :: real)" by simp
  from big small show ?thesis
    unfolding py_pow_def np_float64_def base by (simp only: if_False if_True)
qed

lemma comb_1100_550_infinite: "np_float64 (comb 1100 550) = PInf"
proof -
  have "(0::real) < 2 ^ 1024" by simp
  with comb_1100_550_out_of_range have pos: "0 < comb 1100 550" by linarith
  with comb_1100_550_out_of_range have "2 ^ 1024 \<le> \<bar>comb 1100 550\<bar>" by simp
  with pos show ?thesis by (simp only: np_float64_def signed_inf_def if_True)
qed

lemma C1_binary64_NaN:
  assumes sq: "1 / 2 ^ 5 \<le> base\<^sup>2" "base\<^sup>2 \<le> 2 ^ 5"
  shows "C1_binary64 (1 / 4) base 1100 550 = Inr NaN"
proof -
  have "(1 / 2 ^ 10 :: real) \<le> 1 / 2 ^ 5" by (simp add: field_simps)
  with sq have r1: "1 / 2 ^ 10 \<le> \<bar>base\<^sup>2\<bar>" "\<bar>base\<^sup>2\<bar> \<le> 2 ^ 10" by simp_all
  have "(2::real) ^ 10 < 2 ^ 1024" by (rule power_strict_increasing) simp_all
  with r1(2) have "\<not> 2 ^ 1024 \<le> \<bar>base\<^sup>2\<bar>" by linarith
  then have pw: "py_pow base 2 = Inr (Fin (base\<^sup>2))"
    by (simp only: py_pow_def np_float64_moderate [OF r1] if_False)
  have one: "np_float64 (4 * (1 / 4)) = Fin 1" by (rule trans [OF _ np_float64_moderate [of 1]]) simp_all
  from sq have nz: "base\<^sup>2 \<noteq> 0" by (auto simp add: field_simps)
  have "0 < base\<^sup>2" using nz by simp
  then have q: "1 / 2 ^ 10 \<le> \<bar>1 / base\<^sup>2\<bar>" "\<bar>1 / base\<^sup>2\<bar> \<le> 2 ^ 10"
    using sq by (simp_all add: field_simps)
  have dv: "py_truediv (Fin 1) (Fin (base\<^sup>2)) = Inr (Fin (1 / base\<^sup>2))"
    using nz by (simp add: py_truediv_def np_float64_moderate [OF q])
  have pos: "0 < 1 / base\<^sup>2" using \<open>0 < base\<^sup>2\<close> by simp
  have wc: "fl_float64 (fl_mult (Fin (1 / base\<^sup>2)) (np_float64 (comb 1100 550))) = PInf"
    using pos by (simp add: comb_1100_550_infinite signed_inf_def)
  show ?thesis
    unfolding C1_binary64_def pw one and_then_def sum.case dv Let_def wc half_power_1100_underflows
    by simp
qed

text \<open>
  Claim C7 says that \<open>compute_h__CUSUM\<close> and \<open>compute_c__GLR\<close> never return NaN or a
  negative value for valid parameters. For \<open>horizon = 10\<close>, \<open>M = 1100\<close> and
  \<open>epsilon = 0.25\<close>, \<open>comb(1100, 550)\<close> is beyond the range of binary64 and is \<open>inf\<close>,
  \<open>(2 * epsilon)**M\<close> underflows to \<open>0.0\<close>, and their product is NaN: \<open>C1_minus\<close>,
  \<open>C1_plus\<close> and \<open>C1\<close> are NaN, the guard \<open>C1 == 0\<close> does not apply, and
  \<open>compute_h__CUSUM\<close> returns NaN.
\<close>

theorem compute_h__CUSUM_returns_NaN:
  "compute_h__CUSUM_binary64 10 0 1100 MAX_NB_RANDOM_EVENTS 1 (1 / 4) LAMBDA = Inr NaN"
proof -
  have fl: "\<lfloor>2 * (1 / 4) * real 1100\<rfloor> = 550" "\<lceil>2 * (1 / 4) * real 1100\<rceil> = 550" by simp_all
  have minus: "C1_binary64 (1 / 4) (1 - 1 / 4) 1100 550 = Inr NaN"
    by (rule C1_binary64_NaN) (simp_all add: power2_eq_square)
  have plus: "C1_binary64 (1 / 4) (1 + 1 / 4) 1100 550 = Inr NaN"
    by (rule C1_binary64_NaN) (simp_all add: power2_eq_square)
  have "(10::real) < 2 ^ 1024"
    using power_strict_increasing [of 4 1024 "2::real"] by simp
  then have ratio: "\<not> 2 ^ 1024 \<le> real (max 1 10) / real (max 1 MAX_NB_RANDOM_EVENTS)"
    by (simp add: MAX_NB_RANDOM_EVENTS_def)
  show ?thesis
    unfolding compute_h__CUSUM_binary64_def Let_def fl minus plus and_then_def sum.case
    using ratio by (simp add: py_min_def fl_eq_def)
qed

end
